theory Spec2Isabelle
  imports Complex_Main
begin

section \<open>JavaScript strings and numbers used by the program\<close>

text \<open>
  Template literals such as \<^verbatim>\<open>`${i + 1}. ${p}`\<close> print a non-negative integer in
  decimal, without leading zeros.
\<close>

definition digit_char :: "nat \<Rightarrow> char" where
  "digit_char d =
     (if d = 0 then CHR ''0'' else if d = 1 then CHR ''1'' else if d = 2 then CHR ''2''
      else if d = 3 then CHR ''3'' else if d = 4 then CHR ''4'' else if d = 5 then CHR ''5''
      else if d = 6 then CHR ''6'' else if d = 7 then CHR ''7'' else if d = 8 then CHR ''8''
      else CHR ''9'')"

function string_of_nat :: "nat \<Rightarrow> string" where
  "string_of_nat n =
     (if n < 10 then [digit_char n]
      else string_of_nat (n div 10) @ [digit_char (n mod 10)])"
  by pat_completeness auto
termination
  by (relation "measure (\<lambda>n. n)") auto

text \<open>\<^verbatim>\<open>Array.prototype.join\<close>: the elements separated by \<open>sep\<close>; the empty array gives
  the empty string.\<close>

fun join :: "string \<Rightarrow> string list \<Rightarrow> string" where
  "join sep [] = []"
| "join sep [x] = x"
| "join sep (x # y # ys) = x @ sep @ join sep (y # ys)"

text \<open>\<^verbatim>\<open>Array.prototype.map\<close> with a callback that receives the element and its index.\<close>

definition map_indexed :: "('a \<Rightarrow> nat \<Rightarrow> 'b) \<Rightarrow> 'a list \<Rightarrow> 'b list" where
  "map_indexed f xs = map (\<lambda>(i, x). f x i) (zip [0..<length xs] xs)"

text \<open>A thrown value: the \<open>name\<close> property the handler reads (absent on values that are
  not \<open>Error\<close> objects, such as the event a failed file read rejects with) and the
  message.\<close>

datatype js_error = Thrown (err_name: "string option") (err_message: string)

definition new_Error :: "string \<Rightarrow> js_error" where
  "new_Error m = Thrown (Some ''Error'') m"

definition TypeError :: "string \<Rightarrow> js_error" where
  "TypeError m = Thrown (Some ''TypeError'') m"

section \<open>components/PromptList.tsx\<close>

text \<open>The component's own state and the clipboard it writes to (the write is taken to
  succeed). The two \<open>setTimeout\<close> calls that clear the "copied" marks two seconds later
  are not modelled.\<close>

record prompt_list_state =
  copiedIndex :: "nat option"
  allCopied :: bool
  clipboard :: string

definition handleCopy :: "string \<Rightarrow> nat \<Rightarrow> prompt_list_state \<Rightarrow> prompt_list_state" where
  "handleCopy text index st =
     st\<lparr>clipboard := text, copiedIndex := Some index, allCopied := False\<rparr>"

definition handleCopyAll :: "string list \<Rightarrow> prompt_list_state \<Rightarrow> prompt_list_state" where
  "handleCopyAll prompts st =
     (let allPromptsText =
            join [CHR 0x0A, CHR 0x0A]
              (map_indexed (\<lambda>p i. string_of_nat (i + 1) @ ''. '' @ p) prompts)
      in st\<lparr>clipboard := allPromptsText, allCopied := True, copiedIndex := None\<rparr>)"

section \<open>services/geminiService.ts\<close>

subsection \<open>Decoded JSON values\<close>

text \<open>
  The value \<open>JSON.parse\<close> returns. An object is the list of its members in the order of
  the text; a key that occurs twice keeps its last value. \<open>JNum\<close> carries the value of
  the decoded number (the infinities that an overflowing literal decodes to are left out;
  they are truthy like every other non-zero number).
\<close>

datatype json =
    JNull
  | JBool bool
  | JNum rat
  | JStr string
  | JArr "json list"
  | JObj "(string \<times> json) list"

text \<open>Reading a property: \<open>None\<close> is \<open>undefined\<close>. Reading any property of \<open>null\<close>
  throws a \<open>TypeError\<close>; booleans, numbers, strings and arrays have none of the three
  properties the client reads.\<close>

fun get_prop :: "json \<Rightarrow> string \<Rightarrow> js_error + json option" where
  "get_prop JNull k = Inl (TypeError ''Cannot read properties of null'')"
| "get_prop (JObj kvs) k = Inr (map_of (rev kvs) k)"
| "get_prop _ k = Inr None"

text \<open>JavaScript truthiness, as \<open>&&\<close> tests it.\<close>

fun truthy :: "json option \<Rightarrow> bool" where
  "truthy None = False"
| "truthy (Some JNull) = False"
| "truthy (Some (JBool b)) = b"
| "truthy (Some (JNum q)) = (q \<noteq> 0)"
| "truthy (Some (JStr s)) = (s \<noteq> [])"
| "truthy (Some (JArr xs)) = True"
| "truthy (Some (JObj kvs)) = True"

fun isArray :: "json option \<Rightarrow> bool" where
  "isArray (Some (JArr xs)) = True"
| "isArray _ = False"

subsection \<open>generatePromptsFromImage\<close>

type_synonym image_file = string

text \<open>What the outside world answers during one call: the outcome of reading the file
  as a data URL, and the outcome of \<open>ai.models.generateContent\<close>, which either rejects or
  resolves to a response whose text \<open>JSON.parse\<close> decodes (\<open>Some body\<close>) or rejects
  (\<open>None\<close>).\<close>

record client_env =
  fileToBase64 :: "js_error + string"
  generateContent :: "js_error + json option"

text \<open>The effects of one call, in order. The instruction text sent with the image is
  represented by the parameters it is built from.\<close>

datatype effect =
    ReadAsDataURL image_file
  | GenerateContent string string int "string list option" "string option"
  | ConsoleError string

text \<open>The body of the \<open>try\<close> block that decodes and checks the response. Reading a
  property has no effect and throws on \<open>null\<close> only, whichever property is read, so
  the three reads are done before the \<open>&&\<close> chain is evaluated.\<close>

definition check_response :: "json option \<Rightarrow> js_error + json" where
  "check_response parsed =
     (case parsed of
        None \<Rightarrow> Inl (Thrown (Some ''SyntaxError'') ''Unexpected token'')
      | Some jsonResponse \<Rightarrow>
          (case get_prop jsonResponse ''prompts'' of
             Inl e \<Rightarrow> Inl e
           | Inr prompts \<Rightarrow>
          (case get_prop jsonResponse ''identifiedStyle'' of
             Inl e \<Rightarrow> Inl e
           | Inr identifiedStyle \<Rightarrow>
          (case get_prop jsonResponse ''identifiedSubject'' of
             Inl e \<Rightarrow> Inl e
           | Inr identifiedSubject \<Rightarrow>
               if truthy prompts \<and> isArray prompts
                  \<and> truthy identifiedStyle \<and> truthy identifiedSubject
               then Inr jsonResponse
               else Inl (new_Error ''Invalid JSON structure in response.'')))))"

text \<open>The \<open>try\<close>/\<open>catch\<close> around it: whatever was thrown is logged and replaced.\<close>

definition parse_response :: "json option \<Rightarrow> (js_error + json) \<times> effect list" where
  "parse_response parsed =
     (case check_response parsed of
        Inr jsonResponse \<Rightarrow> (Inr jsonResponse, [])
      | Inl e \<Rightarrow>
          (Inl (new_Error
             ''Could not parse the generated prompts. The API might have returned an unexpected format.''),
           [ConsoleError ''Failed to parse Gemini response:'']))"

definition generatePromptsFromImage ::
  "client_env \<Rightarrow> image_file \<Rightarrow> string \<Rightarrow> int \<Rightarrow> string list option \<Rightarrow> string option
     \<Rightarrow> (js_error + json) \<times> effect list" where
  "generatePromptsFromImage env imageFile apiKey count existingPrompts description =
     (if apiKey = [] then (Inl (new_Error ''API key is missing.''), [])
      else
        (case fileToBase64 env of
           Inl e \<Rightarrow> (Inl e, [ReadAsDataURL imageFile])
         | Inr base64Image \<Rightarrow>
             (let sent = [ReadAsDataURL imageFile,
                          GenerateContent apiKey base64Image count existingPrompts description]
              in case generateContent env of
                   Inl e \<Rightarrow> (Inl e, sent)
                 | Inr parsed \<Rightarrow>
                     (let (res, logged) = parse_response parsed in (res, sent @ logged)))))"

section \<open>The application component: batched, cancellable generation\<close>

subsection \<open>The Prompt Generation Client as the handler sees it\<close>

text \<open>The value the handler destructures from a resolved call, typed as the function's
  signature declares it: \<open>prompts\<close> (bound to \<open>newPrompts\<close>), \<open>identifiedStyle\<close>
  (bound to \<open>style\<close>) and \<open>identifiedSubject\<close> (bound to \<open>subject\<close>).\<close>

datatype generation_result =
  GenerationResult (newPrompts: "string list") (style: string) (subject: string)

text \<open>The arguments of one call \<open>generatePromptsFromImage(imageFile, apiKey,
  promptsToGenerate, existingPrompts, imageDescription)\<close>.\<close>

record call =
  arg_imageFile :: image_file
  arg_apiKey :: string
  arg_count :: int
  arg_existingPrompts :: "string list option"
  arg_description :: string

text \<open>How an awaited call ends: it rejects or resolves, and the user may have pressed
  Cancel (\<open>handleCancel\<close>) while it was in flight; the await is the only point of a run at
  which an event handler can run. The client is any function from the batch index and the
  arguments to such an outcome, so that every behaviour of the external service, and every
  moment at which the user cancels, is covered. Other user events during a run are not
  modelled.\<close>

record outcome =
  cancelled_in_flight :: bool
  settled :: "js_error + generation_result"

type_synonym client = "nat \<Rightarrow> call \<Rightarrow> outcome"

subsection \<open>State\<close>

datatype console_entry = ConsoleLog string | ConsoleErr js_error

text \<open>
  The React state of \<open>App\<close> (\<open>imageFile\<close> to \<open>error\<close>), the \<open>aborted\<close> flag of the
  signal of \<open>generationAbortController.current\<close> (\<open>None\<close> while the ref is \<open>null\<close>),
  the handler's local variable \<open>accumulatedPrompts\<close>, and two logs of what the handler
  did to the outside: the console and the calls it issued. During a run the ref holds the
  controller that run created, so the flag is also the \<open>signal.aborted\<close> the loop reads.
\<close>

record app_state =
  imageFile :: "image_file option"
  apiKey :: string
  imageDescription :: string
  prompts :: "string list"
  promptCount :: nat
  identifiedStyle :: "string option"
  identifiedSubject :: "string option"
  isLoading :: bool
  loadingStatus :: string
  error :: "string option"
  controller :: "bool option"
  accumulatedPrompts :: "string list"
  console :: "console_entry list"
  calls :: "call list"

definition signal_aborted :: "app_state \<Rightarrow> bool" where
  "signal_aborted s = (controller s = Some True)"

definition handleCancel :: "app_state \<Rightarrow> app_state" where
  "handleCancel s =
     (let s1 = (case controller s of None \<Rightarrow> s | Some a \<Rightarrow> s\<lparr>controller := Some True\<rparr>)
      in s1\<lparr>isLoading := False, loadingStatus := []\<rparr>)"

subsection \<open>handleGeneratePrompts\<close>

text \<open>\<open>Math.ceil(promptCount / 5)\<close>; the range input yields a whole number from 5 to 50.\<close>

definition totalBatches :: "nat \<Rightarrow> nat" where
  "totalBatches count = nat \<lceil>real count / 5\<rceil>"

datatype step_result =
    Next app_state
  | Break app_state
  | Throw js_error app_state

text \<open>One iteration of the \<open>for\<close> loop, with the values the callback closed over
  (\<open>imageFile\<close>, \<open>apiKey\<close>, \<open>promptCount\<close>, \<open>imageDescription\<close>) as parameters.\<close>

definition loop_body ::
  "client \<Rightarrow> image_file \<Rightarrow> string \<Rightarrow> nat \<Rightarrow> string \<Rightarrow> nat \<Rightarrow> app_state \<Rightarrow> step_result" where
  "loop_body generate file key count description i s =
     (if signal_aborted s
      then Break (s\<lparr>console := console s @ [ConsoleLog ''Generation aborted by user.'']\<rparr>)
      else
        (let promptsToGenerate = min 5 (int count - int (length (accumulatedPrompts s))) in
         if promptsToGenerate \<le> 0 then Break s
         else
           (let s1 = s\<lparr>loadingStatus :=
                         ''Generating ''
                         @ string_of_nat (nat (int (length (accumulatedPrompts s)) + promptsToGenerate))
                         @ '' of '' @ string_of_nat count @ ''...''\<rparr>;
                existingPrompts = (if i = 0 then None else Some (accumulatedPrompts s));
                c = \<lparr>arg_imageFile = file, arg_apiKey = key, arg_count = promptsToGenerate,
                     arg_existingPrompts = existingPrompts, arg_description = description\<rparr>;
                s2 = s1\<lparr>calls := calls s1 @ [c]\<rparr>;
                s3 = (if cancelled_in_flight (generate i c) then handleCancel s2 else s2)
            in case settled (generate i c) of
                 Inl err \<Rightarrow> Throw err s3
               | Inr r \<Rightarrow>
                   (let s4 = (if i = 0
                              then s3\<lparr>identifiedStyle := Some (style r),
                                      identifiedSubject := Some (subject r)\<rparr>
                              else s3)
                    in Next (s4\<lparr>accumulatedPrompts := accumulatedPrompts s4 @ newPrompts r,
                                  prompts := prompts s4 @ newPrompts r\<rparr>)))))"

text \<open>How control leaves the loop: the condition \<open>i < totalBatches\<close> fails, a \<open>break\<close>
  is taken, or the awaited call throws.\<close>

datatype loop_exit = Completed | Broke | Threw js_error

text \<open>\<open>for (let i = 0; i < totalBatches; i++)\<close>, from index \<open>i\<close> on.\<close>

function for_loop ::
  "client \<Rightarrow> image_file \<Rightarrow> string \<Rightarrow> nat \<Rightarrow> string \<Rightarrow> nat \<Rightarrow> nat \<Rightarrow> app_state
     \<Rightarrow> loop_exit \<times> app_state" where
  "for_loop generate file key count description batches i s =
     (if i < batches
      then (case loop_body generate file key count description i s of
              Next s' \<Rightarrow> for_loop generate file key count description batches (i + 1) s'
            | Break s' \<Rightarrow> (Broke, s')
            | Throw err s' \<Rightarrow> (Threw err, s'))
      else (Completed, s))"
  by pat_completeness auto
termination
  by (relation "measure (\<lambda>(generate, file, key, count, description, batches, i, s). batches - i)") auto

text \<open>The statements before the \<open>try\<close>: a fresh controller and the resets; and the
  initialisation of \<open>accumulatedPrompts\<close>.\<close>

definition start_run :: "app_state \<Rightarrow> app_state" where
  "start_run s =
     s\<lparr>controller := Some False, isLoading := True, error := None, prompts := [],
       identifiedStyle := None, identifiedSubject := None, accumulatedPrompts := []\<rparr>"

text \<open>The \<open>catch\<close> and \<open>finally\<close> blocks.\<close>

definition finish_run :: "loop_exit \<times> app_state \<Rightarrow> app_state" where
  "finish_run res =
     (let (left, s) = res;
          s1 = (case left of
                  Threw err \<Rightarrow>
                    (let s' = s\<lparr>console := console s @ [ConsoleErr err]\<rparr>
                     in if err_name err \<noteq> Some ''AbortError''
                        then s'\<lparr>error :=
                               Some ''Failed to generate prompts. Check your API key or try again later.''\<rparr>
                        else s')
                | _ \<Rightarrow> s)
      in s1\<lparr>isLoading := False, loadingStatus := []\<rparr>)"

definition handleGeneratePrompts :: "client \<Rightarrow> app_state \<Rightarrow> app_state" where
  "handleGeneratePrompts generate s =
     (case imageFile s of
        None \<Rightarrow> s\<lparr>error := Some ''Please upload an image first.''\<rparr>
      | Some file \<Rightarrow>
          if apiKey s = [] then s\<lparr>error := Some ''Please enter your Google Gemini API key.''\<rparr>
          else finish_run
                 (for_loop generate file (apiKey s) (promptCount s) (imageDescription s)
                    (totalBatches (promptCount s)) 0 (start_run s)))"

section \<open>Reference definitions and example inputs\<close>

subsection \<open>Copy-all, as the specification words it\<close>

text \<open>The prompt at index \<open>i\<close> becomes \<open>"{i+1}. {prompt}"\<close>; consecutive lines are
  separated by a blank line.\<close>

definition numbered_line :: "nat \<Rightarrow> string \<Rightarrow> string" where
  "numbered_line i p = string_of_nat (i + 1) @ ''. '' @ p"

fun numbered_from :: "nat \<Rightarrow> string list \<Rightarrow> string" where
  "numbered_from i [] = []"
| "numbered_from i [p] = numbered_line i p"
| "numbered_from i (p # q # ps) =
     numbered_line i p @ ''\<newline>\<newline>'' @ numbered_from (i + 1) (q # ps)"

text \<open>Reading a decimal numeral back, to check \<open>string_of_nat\<close>.\<close>

definition digit_value :: "char \<Rightarrow> nat" where
  "digit_value c = of_char c - 48"

definition decimal_value :: "string \<Rightarrow> nat" where
  "decimal_value cs = foldl (\<lambda>a c. 10 * a + digit_value c) 0 cs"

subsection \<open>Response bodies\<close>

text \<open>The member \<open>k\<close> of a decoded body, \<open>None\<close> when the body is not an object or has
  no such member.\<close>

definition field :: "json \<Rightarrow> string \<Rightarrow> json option" where
  "field body k = (case body of JObj kvs \<Rightarrow> map_of (rev kvs) k | _ \<Rightarrow> None)"

definition parse_failure :: js_error where
  "parse_failure = new_Error
     ''Could not parse the generated prompts. The API might have returned an unexpected format.''"

definition empty_subject_body :: json where
  "empty_subject_body =
     JObj [(''identifiedSubject'', JStr []), (''identifiedStyle'', JStr ''Line art''),
           (''prompts'', JArr [JStr ''a castle, bold black outlines''])]"

definition good_body :: json where
  "good_body =
     JObj [(''identifiedSubject'', JStr ''Castle''), (''identifiedStyle'', JStr ''Line art''),
           (''prompts'', JArr [JStr ''a castle, bold black outlines''])]"

definition resolving_env :: "json \<Rightarrow> client_env" where
  "resolving_env body = \<lparr>fileToBase64 = Inr ''aGVsbG8='', generateContent = Inr (Some body)\<rparr>"

subsection \<open>Batches of a run\<close>

text \<open>The call the loop issues at index \<open>i\<close> when \<open>acc\<close> has been accumulated.\<close>

definition issued_call :: "image_file \<Rightarrow> string \<Rightarrow> nat \<Rightarrow> string \<Rightarrow> nat \<Rightarrow> string list \<Rightarrow> call" where
  "issued_call f key count d i acc =
     \<lparr>arg_imageFile = f, arg_apiKey = key,
      arg_count = min 5 (int count - int (length acc)),
      arg_existingPrompts = (if i = 0 then None else Some acc),
      arg_description = d\<rparr>"

text \<open>The prompts the client answered to the \<open>k\<close>-th call of \<open>cs\<close> (none if it failed), and
  the prompts of batches \<open>0\<close> to \<open>j - 1\<close> together.\<close>

definition answered :: "client \<Rightarrow> call list \<Rightarrow> nat \<Rightarrow> string list" where
  "answered g cs k = (case settled (g k (cs ! k)) of Inr r \<Rightarrow> newPrompts r | Inl e \<Rightarrow> [])"

definition accumulated_before :: "client \<Rightarrow> call list \<Rightarrow> nat \<Rightarrow> string list" where
  "accumulated_before g cs j = concat (map (answered g cs) [0..<j])"

text \<open>The state of a run whose calls so far are \<open>cs\<close>, issued after the calls \<open>pre\<close> of
  earlier runs, and of which the first \<open>m\<close> succeeded: every call was built from what had
  been accumulated before it, and what is accumulated and displayed is what the client
  answered.\<close>

definition after_batches ::
  "client \<Rightarrow> image_file \<Rightarrow> string \<Rightarrow> nat \<Rightarrow> string \<Rightarrow> call list \<Rightarrow> call list \<Rightarrow> nat \<Rightarrow> app_state \<Rightarrow> bool" where
  "after_batches g f key count d pre cs m s =
     (calls s = pre @ cs
      \<and> (\<forall>j<length cs. cs ! j = issued_call f key count d j (accumulated_before g cs j))
      \<and> (\<forall>j<m. \<not> isl (settled (g j (cs ! j))))
      \<and> accumulatedPrompts s = accumulated_before g cs (length cs)
      \<and> prompts s = accumulatedPrompts s)"

text \<open>The state in which the awaited call of iteration \<open>i\<close> settles: the progress text is
  set, the call has been issued, and Cancel may have been pressed meanwhile.\<close>

definition in_flight ::
  "client \<Rightarrow> image_file \<Rightarrow> string \<Rightarrow> nat \<Rightarrow> string \<Rightarrow> nat \<Rightarrow> app_state \<Rightarrow> app_state" where
  "in_flight g f key count d i s =
     (let c = issued_call f key count d i (accumulatedPrompts s);
          s2 = s\<lparr>loadingStatus :=
                    ''Generating ''
                    @ string_of_nat (nat (int (length (accumulatedPrompts s)) + arg_count c))
                    @ '' of '' @ string_of_nat count @ ''...'',
                  calls := calls s @ [c]\<rparr>
      in if cancelled_in_flight (g i c) then handleCancel s2 else s2)"

text \<open>The state an iteration leaves behind, however it ends.\<close>

fun state_of :: "step_result \<Rightarrow> app_state" where
  "state_of (Next s) = s"
| "state_of (Break s) = s"
| "state_of (Throw e s) = s"

subsection \<open>Example runs\<close>

text \<open>A state in which a run can start: an image is selected, a credential is entered,
  \<open>count\<close> prompts are asked for, and results of an earlier run are still shown.\<close>

definition example_state :: "nat \<Rightarrow> app_state" where
  "example_state count =
     \<lparr>imageFile = Some ''cat.png'', apiKey = ''key'', imageDescription = ''a cat'',
      prompts = [''an old prompt''], promptCount = count,
      identifiedStyle = Some ''Old style'', identifiedSubject = Some ''Old subject'',
      isLoading = False, loadingStatus = [], error = None, controller = None,
      accumulatedPrompts = [], console = [], calls = []\<rparr>"

definition example_result :: "nat \<Rightarrow> generation_result" where
  "example_result m = GenerationResult (replicate m ''a castle, bold outlines'') ''Line art'' ''Castle''"

text \<open>A client that returns exactly as many prompts as were asked for; one that returns
  one more; one whose calls all fail; and one during whose first call the user presses
  Cancel.\<close>

definition exact_client :: client where
  "exact_client i c =
     \<lparr>cancelled_in_flight = False, settled = Inr (example_result (nat (arg_count c)))\<rparr>"

definition overlong_client :: client where
  "overlong_client i c =
     \<lparr>cancelled_in_flight = False, settled = Inr (example_result (nat (arg_count c) + 1))\<rparr>"

definition failing_client :: client where
  "failing_client i c =
     \<lparr>cancelled_in_flight = False, settled = Inl (new_Error ''503 Service Unavailable'')\<rparr>"

definition cancelled_client :: client where
  "cancelled_client i c =
     \<lparr>cancelled_in_flight = (i = 0), settled = Inr (example_result (nat (arg_count c)))\<rparr>"

text \<open>A client during whose second call (batch index 1) the user presses Cancel.\<close>

definition late_cancel_client :: client where
  "late_cancel_client i c =
     \<lparr>cancelled_in_flight = (i = 1), settled = Inr (example_result (nat (arg_count c)))\<rparr>"

section \<open>Properties\<close>

subsection \<open>Decimal numerals and array helpers\<close>

declare string_of_nat.simps [simp del]

lemma digit_value_digit_char: "d < 10 \<Longrightarrow> digit_value (digit_char d) = d"
  by (auto simp: digit_value_def digit_char_def)

lemma decimal_value_string_of_nat: "decimal_value (string_of_nat n) = n"
proof (induction n rule: string_of_nat.induct)
  case (1 n)
  show ?case
  proof (cases "n < 10")
    case True
    then show ?thesis
      by (subst string_of_nat.simps) (simp add: decimal_value_def digit_value_digit_char)
  next
    case False
    with 1 have "decimal_value (string_of_nat (n div 10)) = n div 10" by simp
    with False show ?thesis
      by (subst string_of_nat.simps) (simp add: decimal_value_def digit_value_digit_char)
  qed
qed

lemma string_of_nat_digit: "n < 10 \<Longrightarrow> string_of_nat n = [digit_char n]"
  by (subst string_of_nat.simps) simp

lemma map_indexed_Nil: "map_indexed f [] = []"
  by (simp add: map_indexed_def)

lemma map_indexed_Cons: "map_indexed f (x # xs) = f x 0 # map_indexed (\<lambda>p i. f p (Suc i)) xs"
proof -
  have "[0..<Suc (length xs)] = 0 # map Suc [0..<length xs]"
    by (simp add: upt_conv_Cons map_Suc_upt del: upt_Suc)
  then show ?thesis
    by (simp add: map_indexed_def zip_map1 case_prod_unfold del: upt_Suc)
qed

lemma join_numbered:
  "join ''\<newline>\<newline>'' (map_indexed (\<lambda>p i. numbered_line (i + k) p) ps) = numbered_from k ps"
proof (induction k ps rule: numbered_from.induct)
  case (1 i)
  show ?case by (simp add: map_indexed_Nil)
next
  case (2 i p)
  show ?case by (simp add: map_indexed_Cons map_indexed_Nil)
next
  case (3 i p q ps)
  have "join ''\<newline>\<newline>'' (map_indexed (\<lambda>p j. numbered_line (j + (i + 1)) p) (q # ps))
          = numbered_from (i + 1) (q # ps)"
    by (rule 3)
  then show ?case
    by (simp add: map_indexed_Cons)
qed

subsection \<open>Copy-all\<close>

text \<open>
  C9. For every prompt list, \<open>handleCopyAll\<close> writes to the clipboard the prompts numbered
  from 1, each as \<open>"{i+1}. {prompt}"\<close>, joined by a blank line; for \<open>["a", "b"]\<close> the text
  is \<open>"1. a\n\n2. b"\<close>.
\<close>

theorem copy_all_text:
  "clipboard (handleCopyAll ps st) = numbered_from 0 ps
   \<and> clipboard (handleCopyAll [''a'', ''b''] st) = ''1. a\<newline>\<newline>2. b''"
proof -
  have "clipboard (handleCopyAll qs st) = numbered_from 0 qs" for qs
    using join_numbered [of 0 qs]
    by (simp add: handleCopyAll_def numbered_line_def)
  then show ?thesis
    by (simp add: numbered_line_def digit_char_def string_of_nat_digit)
qed

subsection \<open>The client's checks\<close>

lemma get_prop_field:
  "body \<noteq> JNull \<Longrightarrow> get_prop body k = Inr (field body k)"
  by (cases body) (simp_all add: field_def)

lemma truthy_isArray: "isArray v \<Longrightarrow> truthy v"
  by (cases v rule: isArray.cases) simp_all

lemma field_JNull: "field JNull k = None"
  by (simp add: field_def)

lemma check_response_Some:
  "check_response (Some body) =
     (if isArray (field body ''prompts'') \<and> truthy (field body ''identifiedStyle'')
         \<and> truthy (field body ''identifiedSubject'')
      then Inr body
      else if body = JNull then Inl (TypeError ''Cannot read properties of null'')
      else Inl (new_Error ''Invalid JSON structure in response.''))"
proof (cases "body = JNull")
  case True
  then show ?thesis by (simp add: check_response_def field_JNull)
next
  case False
  then show ?thesis
    using truthy_isArray [of "field body ''prompts''"]
    by (auto simp: check_response_def get_prop_field)
qed

lemma parse_response_Some:
  "fst (parse_response (Some body)) =
     (if isArray (field body ''prompts'') \<and> truthy (field body ''identifiedStyle'')
         \<and> truthy (field body ''identifiedSubject'')
      then Inr body else Inl parse_failure)"
  by (simp add: parse_response_def check_response_Some parse_failure_def)

lemma client_resolved:
  "key \<noteq> [] \<Longrightarrow> fileToBase64 env = Inr b \<Longrightarrow> generateContent env = Inr parsed \<Longrightarrow>
   fst (generatePromptsFromImage env f key n ex d) = fst (parse_response parsed)"
  by (simp add: generatePromptsFromImage_def case_prod_unfold Let_def)

text \<open>
  C7, as stated, fails: a body in which \<open>identifiedSubject\<close>, \<open>identifiedStyle\<close> and
  \<open>prompts\<close> are all present and \<open>prompts\<close> is an array is rejected when a label is the
  empty string.
\<close>

theorem response_fields_present_but_rejected:
  "field empty_subject_body ''identifiedSubject'' = Some (JStr [])
   \<and> field empty_subject_body ''identifiedStyle'' = Some (JStr ''Line art'')
   \<and> field empty_subject_body ''prompts'' = Some (JArr [JStr ''a castle, bold black outlines''])
   \<and> fst (generatePromptsFromImage (resolving_env empty_subject_body) ''cat.png'' ''key'' 5 None None)
       = Inl parse_failure"
  by (simp add: client_resolved resolving_env_def parse_response_Some)
     (simp add: field_def empty_subject_body_def)

text \<open>
  C7, amended. When the call reaches a decoded body, the client returns that body, unchanged,
  if and only if \<open>prompts\<close> is an array and \<open>identifiedStyle\<close> and \<open>identifiedSubject\<close> are
  present with truthy values (for a string: not empty); in every other case, in particular
  when one of the three is absent, it fails with the one parse-failure error.
\<close>

theorem response_validation:
  assumes "key \<noteq> []" and "fileToBase64 env = Inr b" and "generateContent env = Inr (Some body)"
  shows "fst (generatePromptsFromImage env f key n ex d) =
           (if isArray (field body ''prompts'') \<and> truthy (field body ''identifiedStyle'')
               \<and> truthy (field body ''identifiedSubject'')
            then Inr body else Inl parse_failure)
         \<and> (field body ''prompts'' = None \<or> field body ''identifiedStyle'' = None
               \<or> field body ''identifiedSubject'' = None
              \<longrightarrow> fst (generatePromptsFromImage env f key n ex d) = Inl parse_failure)"
proof -
  have main: "fst (generatePromptsFromImage env f key n ex d) =
           (if isArray (field body ''prompts'') \<and> truthy (field body ''identifiedStyle'')
               \<and> truthy (field body ''identifiedSubject'')
            then Inr body else Inl parse_failure)"
    using assms by (simp add: client_resolved parse_response_Some)
  show ?thesis
    unfolding main by auto
qed

theorem response_validation_witness:
  "fst (generatePromptsFromImage (resolving_env good_body) ''cat.png'' ''key'' 5 None None)
     = Inr good_body
   \<and> fst (generatePromptsFromImage (resolving_env (JObj [(''prompts'', JArr [])]))
            ''cat.png'' ''key'' 5 None None)
     = Inl parse_failure"
proof -
  have k: "''key'' \<noteq> []" by simp
  have r: "fileToBase64 (resolving_env x) = Inr ''aGVsbG8=''"
          "generateContent (resolving_env x) = Inr (Some x)" for x
    by (simp_all add: resolving_env_def)
  show ?thesis
    using response_validation [OF k r(1) r(2), of good_body "''cat.png''" 5 None None]
          response_validation [OF k r(1) r(2), of "JObj [(''prompts'', JArr [])]" "''cat.png''" 5 None None]
    by (simp add: field_def good_body_def)
qed

text \<open>
  C8. With the empty string as credential, \<open>generatePromptsFromImage\<close> fails with the error
  "API key is missing." and has done nothing: the file is not read and no request is sent.
  With any other credential that branch is not taken: the first thing the call does is read
  the file.
\<close>

theorem missing_credential:
  "(key = [] \<longrightarrow>
      generatePromptsFromImage env f key n ex d = (Inl (new_Error ''API key is missing.''), []))
   \<and> (key \<noteq> [] \<longrightarrow>
      (\<exists>rest. snd (generatePromptsFromImage env f key n ex d) = ReadAsDataURL f # rest))"
  by (auto simp: generatePromptsFromImage_def case_prod_unfold Let_def split: sum.splits)

theorem missing_credential_witness:
  "generatePromptsFromImage (resolving_env good_body) ''cat.png'' [] 5 None None
     = (Inl (new_Error ''API key is missing.''), [])
   \<and> (\<exists>rest. snd (generatePromptsFromImage (resolving_env good_body) ''cat.png'' ''key'' 5 None None)
        = ReadAsDataURL ''cat.png'' # rest)"
  using missing_credential [of "[]" "resolving_env good_body" "''cat.png''" 5 None None]
        missing_credential [of "''key''" "resolving_env good_body" "''cat.png''" 5 None None]
  by simp

subsection \<open>The loop, one iteration at a time\<close>

declare for_loop.simps [simp del]

lemma totalBatches_div: "totalBatches n = (n + 4) div 5"
proof -
  have "\<lceil>real n / 5\<rceil> = \<lceil>of_int (int n) / of_int 5 :: real\<rceil>" by simp
  also have "\<dots> = - (- int n div 5)" by (rule ceiling_divide_eq_div)
  also have "\<dots> = int ((n + 4) div 5)" by (simp add: zdiv_int)
  finally show ?thesis by (simp add: totalBatches_def)
qed

lemma for_loop_done: "\<not> i < b \<Longrightarrow> for_loop g f key n d b i s = (Completed, s)"
  by (subst for_loop.simps) simp

lemma for_loop_Next:
  "i < b \<Longrightarrow> loop_body g f key n d i s = Next s' \<Longrightarrow>
   for_loop g f key n d b i s = for_loop g f key n d b (i + 1) s'"
  by (subst for_loop.simps) simp

lemma for_loop_Break:
  "i < b \<Longrightarrow> loop_body g f key n d i s = Break s' \<Longrightarrow> for_loop g f key n d b i s = (Broke, s')"
  by (subst for_loop.simps) simp

lemma for_loop_Throw:
  "i < b \<Longrightarrow> loop_body g f key n d i s = Throw e s' \<Longrightarrow> for_loop g f key n d b i s = (Threw e, s')"
  by (subst for_loop.simps) simp

lemma handleCancel_fields [simp]:
  "accumulatedPrompts (handleCancel s) = accumulatedPrompts s"
  "prompts (handleCancel s) = prompts s"
  "calls (handleCancel s) = calls s"
  "console (handleCancel s) = console s"
  "error (handleCancel s) = error s"
  "identifiedStyle (handleCancel s) = identifiedStyle s"
  "identifiedSubject (handleCancel s) = identifiedSubject s"
  "promptCount (handleCancel s) = promptCount s"
  "isLoading (handleCancel s) = False"
  "loadingStatus (handleCancel s) = []"
  by (cases "controller s"; simp add: handleCancel_def)+

lemma handleCancel_controller:
  "controller (handleCancel s) = (case controller s of None \<Rightarrow> None | Some a \<Rightarrow> Some True)"
  by (cases "controller s"; simp add: handleCancel_def)

lemma in_flight_fields [simp]:
  "accumulatedPrompts (in_flight g f key n d i s) = accumulatedPrompts s"
  "prompts (in_flight g f key n d i s) = prompts s"
  "console (in_flight g f key n d i s) = console s"
  "error (in_flight g f key n d i s) = error s"
  "identifiedStyle (in_flight g f key n d i s) = identifiedStyle s"
  "identifiedSubject (in_flight g f key n d i s) = identifiedSubject s"
  "calls (in_flight g f key n d i s) = calls s @ [issued_call f key n d i (accumulatedPrompts s)]"
  by (simp_all add: in_flight_def Let_def)

lemma in_flight_controller:
  "controller (in_flight g f key n d i s) =
     (if cancelled_in_flight (g i (issued_call f key n d i (accumulatedPrompts s)))
      then (case controller s of None \<Rightarrow> None | Some a \<Rightarrow> Some True)
      else controller s)"
  by (simp add: in_flight_def Let_def handleCancel_controller)

lemma loop_body_aborted:
  "signal_aborted s \<Longrightarrow>
   loop_body g f key n d i s =
     Break (s\<lparr>console := console s @ [ConsoleLog ''Generation aborted by user.'']\<rparr>)"
  by (simp add: loop_body_def)

lemma loop_body_full:
  "\<not> signal_aborted s \<Longrightarrow> n \<le> length (accumulatedPrompts s) \<Longrightarrow>
   loop_body g f key n d i s = Break s"
  by (simp add: loop_body_def Let_def)

lemma loop_body_call:
  assumes "\<not> signal_aborted s" and "length (accumulatedPrompts s) < n"
  shows "loop_body g f key n d i s =
     (case settled (g i (issued_call f key n d i (accumulatedPrompts s))) of
        Inl err \<Rightarrow> Throw err (in_flight g f key n d i s)
      | Inr r \<Rightarrow>
          Next ((if i = 0
                 then (in_flight g f key n d i s)\<lparr>identifiedStyle := Some (style r),
                                                 identifiedSubject := Some (subject r)\<rparr>
                 else in_flight g f key n d i s)
                \<lparr>accumulatedPrompts := accumulatedPrompts s @ newPrompts r,
                 prompts := prompts s @ newPrompts r\<rparr>))"
proof -
  have pos: "\<not> min 5 (int n - int (length (accumulatedPrompts s))) \<le> 0"
    using assms(2) by simp
  show ?thesis
    using assms(1) pos
    by (simp add: loop_body_def in_flight_def issued_call_def Let_def split: sum.split)
qed

lemma loop_body_cases [consumes 0, case_names aborted full failed resolved]:
  obtains
    "signal_aborted s"
    "loop_body g f key n d i s =
       Break (s\<lparr>console := console s @ [ConsoleLog ''Generation aborted by user.'']\<rparr>)"
  | "\<not> signal_aborted s" "n \<le> length (accumulatedPrompts s)"
    "loop_body g f key n d i s = Break s"
  | e where "\<not> signal_aborted s" "length (accumulatedPrompts s) < n"
    "settled (g i (issued_call f key n d i (accumulatedPrompts s))) = Inl e"
    "loop_body g f key n d i s = Throw e (in_flight g f key n d i s)"
  | r where "\<not> signal_aborted s" "length (accumulatedPrompts s) < n"
    "settled (g i (issued_call f key n d i (accumulatedPrompts s))) = Inr r"
    "loop_body g f key n d i s =
       Next ((if i = 0
              then (in_flight g f key n d i s)\<lparr>identifiedStyle := Some (style r),
                                              identifiedSubject := Some (subject r)\<rparr>
              else in_flight g f key n d i s)
             \<lparr>accumulatedPrompts := accumulatedPrompts s @ newPrompts r,
              prompts := prompts s @ newPrompts r\<rparr>)"
proof (cases "signal_aborted s")
  case True
  then show ?thesis using that(1) loop_body_aborted by blast
next
  case na: False
  show ?thesis
  proof (cases "n \<le> length (accumulatedPrompts s)")
    case True
    then show ?thesis using that(2) na loop_body_full by blast
  next
    case False
    then have lt: "length (accumulatedPrompts s) < n" by simp
    show ?thesis
    proof (cases "settled (g i (issued_call f key n d i (accumulatedPrompts s)))")
      case (Inl e)
      then show ?thesis
        using that(3) [OF na lt] loop_body_call [OF na lt, of g f key d i] by simp
    next
      case (Inr r)
      then show ?thesis
        using that(4) [OF na lt] loop_body_call [OF na lt, of g f key d i] by simp
    qed
  qed
qed

text \<open>Bounding the loop at \<open>a\<close> shows the state after at most \<open>a\<close> iterations: the loop
  up to \<open>b\<close> is the loop up to \<open>a\<close>, continued from there unless it was left early.\<close>

lemma for_loop_split:
  "i \<le> a \<Longrightarrow> a \<le> b \<Longrightarrow>
   for_loop g f key n d b i s =
     (case for_loop g f key n d a i s of
        (Completed, s') \<Rightarrow> for_loop g f key n d b a s'
      | other \<Rightarrow> other)"
proof (induction g f key n d a i s rule: for_loop.induct)
  case (1 g f key n d a i s)
  show ?case
  proof (cases "i < a")
    case False
    with 1(2) have "i = a" by simp
    then show ?thesis by (simp add: for_loop_done)
  next
    case True
    with 1(3) have ib: "i < b" by simp
    show ?thesis
    proof (cases "loop_body g f key n d i s")
      case (Next s')
      have "i + 1 \<le> a" using True by simp
      from 1(1) [OF True Next this 1(3)] show ?thesis
        by (simp only: for_loop_Next [OF True Next] for_loop_Next [OF ib Next])
    next
      case (Break s')
      show ?thesis
        by (simp add: for_loop_Break [OF True Break] for_loop_Break [OF ib Break])
    next
      case (Throw e s')
      show ?thesis
        by (simp add: for_loop_Throw [OF True Throw] for_loop_Throw [OF ib Throw])
    qed
  qed
qed

subsection \<open>Invariants of the loop\<close>

lemma for_loop_aborted:
  "signal_aborted s \<Longrightarrow>
   for_loop g f key n d b i s =
     (if i < b
      then (Broke, s\<lparr>console := console s @ [ConsoleLog ''Generation aborted by user.'']\<rparr>)
      else (Completed, s))"
  by (simp add: for_loop_done for_loop_Break [OF _ loop_body_aborted])

lemma state_of_labels_later:
  "0 < i \<Longrightarrow>
   identifiedStyle (state_of (loop_body g f key n d i s)) = identifiedStyle s
   \<and> identifiedSubject (state_of (loop_body g f key n d i s)) = identifiedSubject s"
  by (cases rule: loop_body_cases [of s g f key n d i]) simp_all

lemma state_of_labels_paired:
  "(identifiedStyle s = None \<longleftrightarrow> identifiedSubject s = None) \<Longrightarrow>
   (identifiedStyle (state_of (loop_body g f key n d i s)) = None
      \<longleftrightarrow> identifiedSubject (state_of (loop_body g f key n d i s)) = None)"
  by (cases rule: loop_body_cases [of s g f key n d i]) simp_all

lemma for_loop_labels_later:
  "0 < i \<Longrightarrow>
   identifiedStyle (snd (for_loop g f key n d b i s)) = identifiedStyle s
   \<and> identifiedSubject (snd (for_loop g f key n d b i s)) = identifiedSubject s"
proof (induction g f key n d b i s rule: for_loop.induct)
  case (1 g f key n d b i s)
  show ?case
  proof (cases "i < b")
    case False
    then show ?thesis by (simp add: for_loop_done)
  next
    case True
    note step = state_of_labels_later [OF 1(2), of g f key n d s]
    show ?thesis
    proof (cases "loop_body g f key n d i s")
      case (Next s')
      have "0 < i + 1" by simp
      from 1(1) [OF True Next this] step show ?thesis
        by (simp add: for_loop_Next [OF True Next] Next)
    next
      case (Break s')
      with step show ?thesis by (simp add: for_loop_Break [OF True Break])
    next
      case (Throw e s')
      with step show ?thesis by (simp add: for_loop_Throw [OF True Throw])
    qed
  qed
qed

lemma for_loop_labels_paired:
  "(identifiedStyle s = None \<longleftrightarrow> identifiedSubject s = None) \<Longrightarrow>
   (identifiedStyle (snd (for_loop g f key n d b i s)) = None
      \<longleftrightarrow> identifiedSubject (snd (for_loop g f key n d b i s)) = None)"
proof (induction g f key n d b i s rule: for_loop.induct)
  case (1 g f key n d b i s)
  show ?case
  proof (cases "i < b")
    case False
    then show ?thesis using 1(2) by (simp add: for_loop_done)
  next
    case True
    note step = state_of_labels_paired [OF 1(2), of g f key n d i]
    show ?thesis
    proof (cases "loop_body g f key n d i s")
      case (Next s')
      from step have "identifiedStyle s' = None \<longleftrightarrow> identifiedSubject s' = None"
        by (simp add: Next)
      from 1(1) [OF True Next this] show ?thesis
        by (simp add: for_loop_Next [OF True Next])
    next
      case (Break s')
      with step show ?thesis by (simp add: for_loop_Break [OF True Break])
    next
      case (Throw e s')
      with step show ?thesis by (simp add: for_loop_Throw [OF True Throw])
    qed
  qed
qed

lemma state_of_bounded:
  assumes "\<forall>i c r. settled (g i c) = Inr r \<longrightarrow> length (newPrompts r) \<le> nat (arg_count c)"
    and "length (accumulatedPrompts s) \<le> n"
  shows "length (accumulatedPrompts (state_of (loop_body g f key n d i s))) \<le> n"
proof (cases rule: loop_body_cases [of s g f key n d i])
  case (resolved r)
  from assms(1) resolved(3)
  have "length (newPrompts r) \<le> nat (arg_count (issued_call f key n d i (accumulatedPrompts s)))"
    by blast
  also have "\<dots> \<le> n - length (accumulatedPrompts s)"
    by (simp add: issued_call_def)
  finally show ?thesis
    using resolved(2,4) by simp
qed (use assms(2) in simp_all)

lemma for_loop_bounded:
  assumes "\<forall>i c r. settled (g i c) = Inr r \<longrightarrow> length (newPrompts r) \<le> nat (arg_count c)"
  shows "length (accumulatedPrompts s) \<le> n \<Longrightarrow>
         length (accumulatedPrompts (snd (for_loop g f key n d b i s))) \<le> n"
  using assms
proof (induction g f key n d b i s rule: for_loop.induct)
  case (1 g f key n d b i s)
  show ?case
  proof (cases "i < b")
    case False
    then show ?thesis using 1(2) by (simp add: for_loop_done)
  next
    case True
    note step = state_of_bounded [OF 1(3) 1(2), of f key d i]
    show ?thesis
    proof (cases "loop_body g f key n d i s")
      case (Next s')
      from step have "length (accumulatedPrompts s') \<le> n" by (simp add: Next)
      from 1(1) [OF True Next this 1(3)] show ?thesis
        by (simp add: for_loop_Next [OF True Next])
    next
      case (Break s')
      with step show ?thesis by (simp add: for_loop_Break [OF True Break])
    next
      case (Throw e s')
      with step show ?thesis by (simp add: for_loop_Throw [OF True Throw])
    qed
  qed
qed

subsection \<open>A whole run\<close>

lemma start_run_fields [simp]:
  "controller (start_run s) = Some False"
  "accumulatedPrompts (start_run s) = []"
  "prompts (start_run s) = []"
  "identifiedStyle (start_run s) = None"
  "identifiedSubject (start_run s) = None"
  "error (start_run s) = None"
  "calls (start_run s) = calls s"
  "console (start_run s) = console s"
  "isLoading (start_run s) = True"
  by (simp_all add: start_run_def)

lemma finish_run_fields [simp]:
  "accumulatedPrompts (finish_run (x, s)) = accumulatedPrompts s"
  "prompts (finish_run (x, s)) = prompts s"
  "identifiedStyle (finish_run (x, s)) = identifiedStyle s"
  "identifiedSubject (finish_run (x, s)) = identifiedSubject s"
  "calls (finish_run (x, s)) = calls s"
  "controller (finish_run (x, s)) = controller s"
  "isLoading (finish_run (x, s)) = False"
  "loadingStatus (finish_run (x, s)) = []"
  by (cases x; simp add: finish_run_def Let_def)+

lemma finish_run_error:
  "error (finish_run (x, s)) =
     (case x of
        Threw e \<Rightarrow> if err_name e \<noteq> Some ''AbortError''
                   then Some ''Failed to generate prompts. Check your API key or try again later.''
                   else error s
      | _ \<Rightarrow> error s)"
  by (cases x; simp add: finish_run_def Let_def)

lemma finish_run_console:
  "console (finish_run (x, s)) =
     (case x of Threw e \<Rightarrow> console s @ [ConsoleErr e] | _ \<Rightarrow> console s)"
  by (cases x; simp add: finish_run_def Let_def)

lemma handleGeneratePrompts_run:
  "imageFile s = Some f \<Longrightarrow> apiKey s \<noteq> [] \<Longrightarrow>
   handleGeneratePrompts g s =
     finish_run (for_loop g f (apiKey s) (promptCount s) (imageDescription s)
                   (totalBatches (promptCount s)) 0 (start_run s))"
  by (simp add: handleGeneratePrompts_def)

lemma not_aborted_start [simp]: "\<not> signal_aborted (start_run s)"
  by (simp add: signal_aborted_def)

lemma example_state_fields [simp]:
  "imageFile (example_state n) = Some ''cat.png''"
  "apiKey (example_state n) = ''key''"
  "promptCount (example_state n) = n"
  "imageDescription (example_state n) = ''a cat''"
  "calls (example_state n) = []"
  "console (example_state n) = []"
  by (simp_all add: example_state_def)

lemma for_loop_single:
  "for_loop g f key n d (Suc 0) 0 s =
     (case loop_body g f key n d 0 s of
        Next s' \<Rightarrow> (Completed, s') | Break s' \<Rightarrow> (Broke, s') | Throw e s' \<Rightarrow> (Threw e, s'))"
  by (subst for_loop.simps) (simp add: for_loop_done split: step_result.split)

lemma loop_body_first:
  "0 < n \<Longrightarrow>
   loop_body g f key n d 0 (start_run s) =
     (case settled (g 0 (issued_call f key n d 0 [])) of
        Inl err \<Rightarrow> Throw err (in_flight g f key n d 0 (start_run s))
      | Inr r \<Rightarrow>
          Next ((in_flight g f key n d 0 (start_run s))
                  \<lparr>identifiedStyle := Some (style r), identifiedSubject := Some (subject r),
                   accumulatedPrompts := newPrompts r, prompts := newPrompts r\<rparr>))"
  using loop_body_call [of "start_run s" n g f key d 0]
  by (simp split: sum.split)

lemma for_loop_first:
  "0 < n \<Longrightarrow> 0 < b \<Longrightarrow>
   for_loop g f key n d b 0 (start_run s) =
     (case settled (g 0 (issued_call f key n d 0 [])) of
        Inl err \<Rightarrow> (Threw err, in_flight g f key n d 0 (start_run s))
      | Inr r \<Rightarrow>
          for_loop g f key n d b 1
            ((in_flight g f key n d 0 (start_run s))
               \<lparr>identifiedStyle := Some (style r), identifiedSubject := Some (subject r),
                accumulatedPrompts := newPrompts r, prompts := newPrompts r\<rparr>))"
  by (subst for_loop.simps) (simp add: loop_body_first split: sum.split)

subsection \<open>The accumulated list and the target count\<close>

text \<open>
  C2, as stated, fails: the client's result is appended whole, whatever its length. Asked
  for 5 prompts, a client that answers 6 leaves 6 accumulated.
\<close>

theorem overlong_result_exceeds_target:
  "promptCount (example_state 5) = 5
   \<and> length (accumulatedPrompts (handleGeneratePrompts overlong_client (example_state 5))) = 6"
  by (simp add: handleGeneratePrompts_run totalBatches_div for_loop_first for_loop_done
        overlong_client_def issued_call_def example_result_def)

text \<open>
  C2, amended. If no result of the client holds more prompts than were requested, then after
  any number of iterations of the loop, and when the handler has finished, the accumulated
  list is no longer than the target count.
\<close>

theorem accumulated_within_target:
  assumes "\<forall>i c r. settled (g i c) = Inr r \<longrightarrow> length (newPrompts r) \<le> nat (arg_count c)"
  shows "(\<forall>k. length (accumulatedPrompts (snd (for_loop g f key n d k 0 (start_run s)))) \<le> n)
         \<and> (imageFile s \<noteq> None \<and> apiKey s \<noteq> [] \<longrightarrow>
              length (accumulatedPrompts (handleGeneratePrompts g s)) \<le> promptCount s)"
proof -
  have loop: "length (accumulatedPrompts (snd (for_loop g f' key' n' d' k 0 (start_run s)))) \<le> n'"
    for f' key' n' d' k
    using for_loop_bounded [OF assms, of "start_run s" n' f' key' d' k 0] by simp
  have "length (accumulatedPrompts (handleGeneratePrompts g s)) \<le> promptCount s"
    if "imageFile s = Some f'" "apiKey s \<noteq> []" for f'
    using loop [of f' "apiKey s" "promptCount s" "imageDescription s" "totalBatches (promptCount s)"]
    by (cases "for_loop g f' (apiKey s) (promptCount s) (imageDescription s)
                 (totalBatches (promptCount s)) 0 (start_run s)")
       (simp add: handleGeneratePrompts_run [OF that])
  with loop show ?thesis by auto
qed

theorem accumulated_within_target_witness:
  "(\<forall>k. length (accumulatedPrompts
            (snd (for_loop exact_client ''cat.png'' ''key'' 10 ''a cat'' k 0
                    (start_run (example_state 10))))) \<le> 10)
   \<and> length (accumulatedPrompts (handleGeneratePrompts exact_client (example_state 10))) \<le> 10"
proof -
  have h: "\<forall>i c r. settled (exact_client i c) = Inr r
             \<longrightarrow> length (newPrompts r) \<le> nat (arg_count c)"
    by (auto simp: exact_client_def example_result_def)
  show ?thesis
    using accumulated_within_target [OF h, of "''cat.png''" "''key''" 10 "''a cat''" "example_state 10"]
    by simp
qed

subsection \<open>The identified subject and style\<close>

text \<open>
  C4, as stated, fails: in a run whose first call fails the two labels are never assigned.
\<close>

theorem labels_unset_when_first_batch_fails:
  "identifiedStyle (handleGeneratePrompts failing_client (example_state 5)) = None
   \<and> identifiedSubject (handleGeneratePrompts failing_client (example_state 5)) = None
   \<and> length (calls (handleGeneratePrompts failing_client (example_state 5))) = 1"
  by (simp add: handleGeneratePrompts_run totalBatches_div for_loop_first failing_client_def)

text \<open>
  C4, amended. The two labels are unset when the run starts; after any number of iterations
  they are both unset or both set; once the first iteration is over (for a positive target
  count) they are the labels of the result of batch 0 if that call succeeded and unset if it
  failed, however many iterations follow, also when the handler has finished; and no
  iteration with index above 0 changes them, whatever the state it starts in.
\<close>

theorem labels_from_first_batch:
  "identifiedStyle (start_run s) = None \<and> identifiedSubject (start_run s) = None
   \<and> (\<forall>k. identifiedStyle (snd (for_loop g f key n d k 0 (start_run s))) = None
            \<longleftrightarrow> identifiedSubject (snd (for_loop g f key n d k 0 (start_run s))) = None)
   \<and> (\<forall>k. 0 < k \<and> 0 < n \<longrightarrow>
          (identifiedStyle (snd (for_loop g f key n d k 0 (start_run s))),
           identifiedSubject (snd (for_loop g f key n d k 0 (start_run s))))
          = (case settled (g 0 (issued_call f key n d 0 [])) of
               Inr r \<Rightarrow> (Some (style r), Some (subject r))
             | Inl e \<Rightarrow> (None, None)))
   \<and> (imageFile s = Some f \<and> apiKey s = key \<and> key \<noteq> [] \<and> promptCount s = n
        \<and> imageDescription s = d \<and> 0 < n \<longrightarrow>
          (identifiedStyle (handleGeneratePrompts g s),
           identifiedSubject (handleGeneratePrompts g s))
          = (case settled (g 0 (issued_call f key n d 0 [])) of
               Inr r \<Rightarrow> (Some (style r), Some (subject r))
             | Inl e \<Rightarrow> (None, None)))
   \<and> (\<forall>i b s'. 0 < i \<longrightarrow>
          identifiedStyle (snd (for_loop g f key n d b i s')) = identifiedStyle s'
          \<and> identifiedSubject (snd (for_loop g f key n d b i s')) = identifiedSubject s')"
proof -
  have paired: "identifiedStyle (snd (for_loop g f key n d k 0 (start_run s))) = None
            \<longleftrightarrow> identifiedSubject (snd (for_loop g f key n d k 0 (start_run s))) = None" for k
    by (rule for_loop_labels_paired) simp
  have first: "(identifiedStyle (snd (for_loop g f key n d k 0 (start_run s))),
           identifiedSubject (snd (for_loop g f key n d k 0 (start_run s))))
          = (case settled (g 0 (issued_call f key n d 0 [])) of
               Inr r \<Rightarrow> (Some (style r), Some (subject r))
             | Inl e \<Rightarrow> (None, None))" if "0 < k" "0 < n" for k
    using that
    by (simp add: for_loop_first for_loop_labels_later split: sum.split)
  have final: "(identifiedStyle (handleGeneratePrompts g s),
           identifiedSubject (handleGeneratePrompts g s))
          = (case settled (g 0 (issued_call f key n d 0 [])) of
               Inr r \<Rightarrow> (Some (style r), Some (subject r))
             | Inl e \<Rightarrow> (None, None))"
    if "imageFile s = Some f" "apiKey s = key" "key \<noteq> []" "promptCount s = n"
       "imageDescription s = d" "0 < n"
  proof -
    have b: "0 < totalBatches n" using that(6) by (simp add: totalBatches_div)
    have run: "handleGeneratePrompts g s
                 = finish_run (for_loop g f key n d (totalBatches n) 0 (start_run s))"
      using handleGeneratePrompts_run [of s f g] that by simp
    show ?thesis
      using first [OF b that(6)]
      by (cases "for_loop g f key n d (totalBatches n) 0 (start_run s)") (simp add: run)
  qed
  show ?thesis
    using paired first final for_loop_labels_later by simp
qed

theorem labels_from_first_batch_witness:
  "(identifiedStyle (handleGeneratePrompts exact_client (example_state 10)),
    identifiedSubject (handleGeneratePrompts exact_client (example_state 10)))
     = (Some ''Line art'', Some ''Castle'')
   \<and> identifiedStyle (snd (for_loop exact_client ''cat.png'' ''key'' 10 ''a cat'' 2 0
                          (start_run (example_state 10)))) = Some ''Line art''
   \<and> identifiedSubject (snd (for_loop exact_client ''cat.png'' ''key'' 10 ''a cat'' 2 0
                          (start_run (example_state 10)))) = Some ''Castle''"
  using labels_from_first_batch [of "example_state 10" exact_client "''cat.png''" "''key''" 10 "''a cat''"]
  by (simp add: exact_client_def example_result_def)

subsection \<open>Cancellation during a call\<close>

text \<open>
  C10. When Cancel is pressed while the call of an iteration is in flight and the call then
  succeeds, its prompts are still appended to the accumulated list and to the displayed
  prompts; the signal is aborted only for the check of the next iteration, so that this call
  is the last one.
\<close>

theorem cancel_in_flight_keeps_batch:
  assumes "controller s = Some False" and "length (accumulatedPrompts s) < n" and "i < b"
    and "cancelled_in_flight (g i (issued_call f key n d i (accumulatedPrompts s)))"
    and "settled (g i (issued_call f key n d i (accumulatedPrompts s))) = Inr r"
  shows "fst (for_loop g f key n d b i s) = (if i + 1 < b then Broke else Completed)
         \<and> accumulatedPrompts (snd (for_loop g f key n d b i s))
             = accumulatedPrompts s @ newPrompts r
         \<and> prompts (snd (for_loop g f key n d b i s)) = prompts s @ newPrompts r
         \<and> calls (snd (for_loop g f key n d b i s))
             = calls s @ [issued_call f key n d i (accumulatedPrompts s)]
         \<and> controller (snd (for_loop g f key n d b i s)) = Some True"
proof -
  let ?s' = "(if i = 0
              then (in_flight g f key n d i s)\<lparr>identifiedStyle := Some (style r),
                                              identifiedSubject := Some (subject r)\<rparr>
              else in_flight g f key n d i s)
             \<lparr>accumulatedPrompts := accumulatedPrompts s @ newPrompts r,
              prompts := prompts s @ newPrompts r\<rparr>"
  have na: "\<not> signal_aborted s"
    using assms(1) by (simp add: signal_aborted_def)
  have body: "loop_body g f key n d i s = Next ?s'"
    using loop_body_call [OF na assms(2), of g f key d i] assms(5) by simp
  have ctl: "controller ?s' = Some True"
    using assms(1,4) by (cases "i = 0") (simp_all add: in_flight_controller)
  then have ab: "signal_aborted ?s'"
    by (simp only: signal_aborted_def)
  show ?thesis
    using ctl by (simp add: for_loop_Next [OF assms(3) body] for_loop_aborted [OF ab])
qed

theorem cancel_in_flight_keeps_batch_witness:
  "accumulatedPrompts (snd (for_loop cancelled_client ''cat.png'' ''key'' 10 ''a cat'' 2 0
                              (start_run (example_state 10))))
     = replicate 5 ''a castle, bold outlines''
   \<and> length (calls (snd (for_loop cancelled_client ''cat.png'' ''key'' 10 ''a cat'' 2 0
                              (start_run (example_state 10))))) = 1"
proof -
  let ?s = "start_run (example_state 10)"
  let ?c = "issued_call ''cat.png'' ''key'' 10 ''a cat'' 0 (accumulatedPrompts ?s)"
  have 1: "controller ?s = Some False" by simp
  have 2: "length (accumulatedPrompts ?s) < 10" by simp
  have 3: "(0::nat) < 2" by simp
  have 4: "cancelled_in_flight (cancelled_client 0 ?c)" by (simp add: cancelled_client_def)
  have 5: "settled (cancelled_client 0 ?c) = Inr (example_result 5)"
    by (simp add: cancelled_client_def issued_call_def)
  show ?thesis
    using 1 2 3 4 5
      cancel_in_flight_keeps_batch [of ?s 10 0 2 cancelled_client "''cat.png''" "''key''" "''a cat''"
        "example_result 5"]
    by (simp add: example_result_def)
qed

subsection \<open>The calls of a run\<close>

lemma answered_append:
  "k < length cs \<Longrightarrow> answered g (cs @ cs') k = answered g cs k"
  by (simp add: answered_def nth_append)

lemma accumulated_before_append:
  "j \<le> length cs \<Longrightarrow> accumulated_before g (cs @ cs') j = accumulated_before g cs j"
proof -
  assume "j \<le> length cs"
  then have "map (answered g (cs @ cs')) [0..<j] = map (answered g cs) [0..<j]"
    by (intro map_cong) (auto simp: answered_append)
  then show ?thesis by (simp only: accumulated_before_def)
qed

lemma accumulated_before_Suc:
  "accumulated_before g cs (Suc j) = accumulated_before g cs j @ answered g cs j"
  by (simp add: accumulated_before_def)

lemma accumulated_before_snoc:
  "accumulated_before g (cs @ [c]) (Suc (length cs))
     = accumulated_before g cs (length cs)
       @ (case settled (g (length cs) c) of Inr r \<Rightarrow> newPrompts r | Inl e \<Rightarrow> [])"
  by (simp add: accumulated_before_Suc accumulated_before_append answered_def)

lemma after_batches_same:
  "calls s' = calls s \<Longrightarrow> accumulatedPrompts s' = accumulatedPrompts s \<Longrightarrow>
   prompts s' = prompts s \<Longrightarrow>
   after_batches g f key n d pre cs m s' = after_batches g f key n d pre cs m s"
  by (simp add: after_batches_def)

lemma after_batches_snoc:
  assumes inv: "after_batches g f key n d pre cs (length cs) s"
    and c: "c = issued_call f key n d (length cs) (accumulatedPrompts s)"
    and s': "calls s' = calls s @ [c]"
            "accumulatedPrompts s'
               = accumulatedPrompts s
                 @ (case settled (g (length cs) c) of Inr r \<Rightarrow> newPrompts r | Inl e \<Rightarrow> [])"
            "prompts s' = accumulatedPrompts s'"
    and m: "m = (if isl (settled (g (length cs) c)) then length cs else Suc (length cs))"
  shows "after_batches g f key n d pre (cs @ [c]) m s'"
proof -
  from inv have calls: "calls s = pre @ cs"
    and built: "\<forall>j<length cs. cs ! j = issued_call f key n d j (accumulated_before g cs j)"
    and ok: "\<forall>j<length cs. \<not> isl (settled (g j (cs ! j)))"
    and acc: "accumulatedPrompts s = accumulated_before g cs (length cs)"
    unfolding after_batches_def by blast+
  have built': "(cs @ [c]) ! j = issued_call f key n d j (accumulated_before g (cs @ [c]) j)"
    if "j < length (cs @ [c])" for j
  proof (cases "j < length cs")
    case True
    then show ?thesis using built by (simp add: nth_append accumulated_before_append)
  next
    case False
    with that have "j = length cs" by simp
    then show ?thesis using c acc by (simp add: accumulated_before_append)
  qed
  have ok': "\<not> isl (settled (g j ((cs @ [c]) ! j)))" if "j < m" for j
  proof (cases "j < length cs")
    case True
    then show ?thesis using ok by (simp add: nth_append)
  next
    case False
    with that m have "j = length cs" "\<not> isl (settled (g (length cs) c))"
      by (auto split: if_splits)
    then show ?thesis by simp
  qed
  have acc': "accumulatedPrompts s' = accumulated_before g (cs @ [c]) (length (cs @ [c]))"
    using s'(2) acc by (simp add: accumulated_before_snoc)
  show ?thesis
    unfolding after_batches_def
  proof (intro conjI allI impI)
    show "calls s' = pre @ cs @ [c]" using calls s'(1) by simp
    show "(cs @ [c]) ! j = issued_call f key n d j (accumulated_before g (cs @ [c]) j)"
      if "j < length (cs @ [c])" for j by (rule built' [OF that])
    show "\<not> isl (settled (g j ((cs @ [c]) ! j)))" if "j < m" for j by (rule ok' [OF that])
    show "accumulatedPrompts s' = accumulated_before g (cs @ [c]) (length (cs @ [c]))"
      by (rule acc')
    show "prompts s' = accumulatedPrompts s'" by (rule s'(3))
  qed
qed


lemma after_batches_step:
  assumes inv: "after_batches g f key n d pre cs (length cs) s"
  shows "case loop_body g f key n d (length cs) s of
           Next s' \<Rightarrow>
             after_batches g f key n d pre
               (cs @ [issued_call f key n d (length cs) (accumulatedPrompts s)])
               (Suc (length cs)) s'
         | Break s' \<Rightarrow> after_batches g f key n d pre cs (length cs) s'
         | Throw e s' \<Rightarrow>
             after_batches g f key n d pre
               (cs @ [issued_call f key n d (length cs) (accumulatedPrompts s)])
               (length cs) s'
             \<and> settled (g (length cs) (issued_call f key n d (length cs) (accumulatedPrompts s)))
                 = Inl e"
proof (cases rule: loop_body_cases [of s g f key n d "length cs"])
  case aborted
  have "after_batches g f key n d pre cs (length cs)
          (s\<lparr>console := console s @ [ConsoleLog ''Generation aborted by user.'']\<rparr>)"
    using inv by (subst after_batches_same [where s = s]) simp_all
  with aborted(2) show ?thesis by simp
next
  case full
  then show ?thesis using inv by simp
next
  case (failed e)
  let ?c = "issued_call f key n d (length cs) (accumulatedPrompts s)"
  from inv have pa: "prompts s = accumulatedPrompts s" unfolding after_batches_def by blast
  have "after_batches g f key n d pre (cs @ [?c]) (length cs) (in_flight g f key n d (length cs) s)"
  proof (rule after_batches_snoc [OF inv refl])
    show "calls (in_flight g f key n d (length cs) s) = calls s @ [?c]" by simp
    show "accumulatedPrompts (in_flight g f key n d (length cs) s)
            = accumulatedPrompts s
              @ (case settled (g (length cs) ?c) of Inr r \<Rightarrow> newPrompts r | Inl e \<Rightarrow> [])"
      using failed(3) by simp
    show "prompts (in_flight g f key n d (length cs) s)
            = accumulatedPrompts (in_flight g f key n d (length cs) s)"
      using pa by simp
    show "length cs = (if isl (settled (g (length cs) ?c)) then length cs else Suc (length cs))"
      using failed(3) by simp
  qed
  with failed(3,4) show ?thesis by simp
next
  case (resolved r)
  let ?c = "issued_call f key n d (length cs) (accumulatedPrompts s)"
  let ?s' = "(if length cs = 0
              then (in_flight g f key n d (length cs) s)\<lparr>identifiedStyle := Some (style r),
                                              identifiedSubject := Some (subject r)\<rparr>
              else in_flight g f key n d (length cs) s)
             \<lparr>accumulatedPrompts := accumulatedPrompts s @ newPrompts r,
              prompts := prompts s @ newPrompts r\<rparr>"
  from inv have pa: "prompts s = accumulatedPrompts s" unfolding after_batches_def by blast
  have "after_batches g f key n d pre (cs @ [?c]) (Suc (length cs)) ?s'"
  proof (rule after_batches_snoc [OF inv refl])
    show "calls ?s' = calls s @ [?c]" by simp
    show "accumulatedPrompts ?s'
            = accumulatedPrompts s
              @ (case settled (g (length cs) ?c) of Inr r \<Rightarrow> newPrompts r | Inl e \<Rightarrow> [])"
      using resolved(3) by simp
    show "prompts ?s' = accumulatedPrompts ?s'"
      using pa by simp
    show "Suc (length cs) = (if isl (settled (g (length cs) ?c)) then length cs else Suc (length cs))"
      using resolved(3) by simp
  qed
  with resolved(4) show ?thesis by simp
qed

lemma for_loop_batches:
  "after_batches g f key n d pre cs i s \<Longrightarrow> i = length cs \<Longrightarrow>
   \<exists>cs'. (case fst (for_loop g f key n d b i s) of
            Threw e \<Rightarrow>
              cs' \<noteq> []
              \<and> after_batches g f key n d pre cs' (length cs' - 1) (snd (for_loop g f key n d b i s))
              \<and> settled (g (length cs' - 1) (last cs')) = Inl e
          | _ \<Rightarrow> after_batches g f key n d pre cs' (length cs') (snd (for_loop g f key n d b i s)))"
proof (induction g f key n d b i s arbitrary: cs rule: for_loop.induct)
  case (1 g f key n d b i s)
  have inv: "after_batches g f key n d pre cs (length cs) s"
    using 1(2) 1(3) by (simp only:)
  note step = after_batches_step [OF inv]
  have i: "i = length cs" by (rule 1(3))
  show ?case
  proof (cases "i < b")
    case False
    show ?thesis
      by (rule exI [of _ cs]) (simp add: for_loop_done [OF False] inv)
  next
    case True
    show ?thesis
    proof (cases "loop_body g f key n d i s")
      case (Next s')
      let ?cs = "cs @ [issued_call f key n d (length cs) (accumulatedPrompts s)]"
      from step Next have "after_batches g f key n d pre ?cs (Suc (length cs)) s'"
        unfolding i by simp
      then have a: "after_batches g f key n d pre ?cs (i + 1) s'"
        unfolding i by simp
      have l: "i + 1 = length ?cs" unfolding i by simp
      show ?thesis
        unfolding for_loop_Next [OF True Next] by (rule 1(1) [OF True Next a l])
    next
      case (Break s')
      with step have "after_batches g f key n d pre cs (length cs) s'"
        unfolding i by simp
      then show ?thesis
        by (intro exI [of _ cs]) (simp add: for_loop_Break [OF True Break])
    next
      case (Throw e s')
      let ?c = "issued_call f key n d (length cs) (accumulatedPrompts s)"
      from step Throw have "after_batches g f key n d pre (cs @ [?c]) (length cs) s'"
        and "settled (g (length cs) ?c) = Inl e"
        unfolding i by simp_all
      then show ?thesis
        by (intro exI [of _ "cs @ [?c]"]) (simp add: for_loop_Throw [OF True Throw])
    qed
  qed
qed

lemma after_batches_start: "after_batches g f key n d (calls s) [] 0 (start_run s)"
  by (simp add: after_batches_def accumulated_before_def)

lemma for_loop_error: "error (snd (for_loop g f key n d b i s)) = error s"
proof (induction g f key n d b i s rule: for_loop.induct)
  case (1 g f key n d b i s)
  show ?case
  proof (cases "i < b")
    case False
    then show ?thesis by (simp add: for_loop_done)
  next
    case True
    have step: "error (state_of (loop_body g f key n d i s)) = error s"
      by (cases rule: loop_body_cases [of s g f key n d i]) simp_all
    show ?thesis
    proof (cases "loop_body g f key n d i s")
      case (Next s')
      with step 1(1) [OF True Next] show ?thesis
        by (simp add: for_loop_Next [OF True Next])
    next
      case (Break s')
      with step show ?thesis by (simp add: for_loop_Break [OF True Break])
    next
      case (Throw e s')
      with step show ?thesis by (simp add: for_loop_Throw [OF True Throw])
    qed
  qed
qed

text \<open>The shape of every run: its calls \<open>cs\<close>, what they were built from, and which of
  them can have failed.\<close>

lemma run_batches:
  assumes "imageFile s = Some f" and "apiKey s \<noteq> []"
  shows "\<exists>cs m left.
           after_batches g f (apiKey s) (promptCount s) (imageDescription s) (calls s) cs m
             (handleGeneratePrompts g s)
           \<and> error (handleGeneratePrompts g s)
               = (case left of
                    Threw e \<Rightarrow> if err_name e \<noteq> Some ''AbortError''
                               then Some ''Failed to generate prompts. Check your API key or try again later.''
                               else None
                  | _ \<Rightarrow> None)
           \<and> (case left of
                 Threw e \<Rightarrow> cs \<noteq> [] \<and> m = length cs - 1
                            \<and> settled (g (length cs - 1) (last cs)) = Inl e
               | _ \<Rightarrow> m = length cs)"
proof -
  let ?loop = "for_loop g f (apiKey s) (promptCount s) (imageDescription s)
                 (totalBatches (promptCount s)) 0 (start_run s)"
  obtain left s' where loop: "?loop = (left, s')" by (cases ?loop)
  have run: "handleGeneratePrompts g s = finish_run (left, s')"
    using handleGeneratePrompts_run [OF assms, of g] loop by simp
  have same: "after_batches g f (apiKey s) (promptCount s) (imageDescription s) (calls s) cs m
                (handleGeneratePrompts g s)
              = after_batches g f (apiKey s) (promptCount s) (imageDescription s) (calls s) cs m s'"
    for cs m
    unfolding run by (rule after_batches_same) simp_all
  have err0: "error s' = None"
    using for_loop_error [of g f "apiKey s" "promptCount s" "imageDescription s"
            "totalBatches (promptCount s)" 0 "start_run s"] loop
    by simp
  have "\<exists>cs. (case fst ?loop of
            Threw e \<Rightarrow>
              cs \<noteq> []
              \<and> after_batches g f (apiKey s) (promptCount s) (imageDescription s) (calls s) cs
                   (length cs - 1) (snd ?loop)
              \<and> settled (g (length cs - 1) (last cs)) = Inl e
          | _ \<Rightarrow> after_batches g f (apiKey s) (promptCount s) (imageDescription s) (calls s) cs
                   (length cs) (snd ?loop))"
    by (rule for_loop_batches [OF after_batches_start]) simp
  then
  obtain cs where cs:
    "case left of
       Threw e \<Rightarrow> cs \<noteq> []
          \<and> after_batches g f (apiKey s) (promptCount s) (imageDescription s) (calls s) cs
               (length cs - 1) s'
          \<and> settled (g (length cs - 1) (last cs)) = Inl e
     | _ \<Rightarrow> after_batches g f (apiKey s) (promptCount s) (imageDescription s) (calls s) cs
               (length cs) s'"
    unfolding loop fst_conv snd_conv by blast
  show ?thesis
  proof (cases left)
    case Completed
    with cs err0 show ?thesis
      by (intro exI [of _ cs] exI [of _ "length cs"] exI [of _ left])
         (simp add: same, simp add: run finish_run_error)
  next
    case Broke
    with cs err0 show ?thesis
      by (intro exI [of _ cs] exI [of _ "length cs"] exI [of _ left])
         (simp add: same, simp add: run finish_run_error)
  next
    case (Threw e)
    with cs err0 show ?thesis
      by (intro exI [of _ cs] exI [of _ "length cs - 1"] exI [of _ left])
         (simp add: same, simp add: run finish_run_error)
  qed
qed

text \<open>An iteration whose call succeeds.\<close>

lemma loop_body_resolved:
  assumes "\<not> signal_aborted s" and "length (accumulatedPrompts s) < n"
    and "settled (g i (issued_call f key n d i (accumulatedPrompts s))) = Inr r"
  shows "\<exists>s'. loop_body g f key n d i s = Next s'
           \<and> accumulatedPrompts s' = accumulatedPrompts s @ newPrompts r
           \<and> calls s' = calls s @ [issued_call f key n d i (accumulatedPrompts s)]
           \<and> console s' = console s
           \<and> controller s' = controller (in_flight g f key n d i s)"
  using assms(3)
  by (cases "i = 0") (simp_all add: loop_body_call [OF assms(1,2)])

subsection \<open>The exclusion list\<close>

lemma for_loop_calls_mono:
  "length (calls s) \<le> length (calls (snd (for_loop g f key n d b i s)))"
proof (induction g f key n d b i s rule: for_loop.induct)
  case (1 g f key n d b i s)
  show ?case
  proof (cases "i < b")
    case False
    then show ?thesis by (simp add: for_loop_done)
  next
    case True
    have step: "length (calls s) \<le> length (calls (state_of (loop_body g f key n d i s)))"
      by (cases rule: loop_body_cases [of s g f key n d i]) simp_all
    show ?thesis
    proof (cases "loop_body g f key n d i s")
      case (Next s')
      with step 1(1) [OF True Next] show ?thesis
        by (simp add: for_loop_Next [OF True Next])
    next
      case (Break s')
      with step show ?thesis by (simp add: for_loop_Break [OF True Break])
    next
      case (Throw e s')
      with step show ?thesis by (simp add: for_loop_Throw [OF True Throw])
    qed
  qed
qed

text \<open>Why the loop stops issuing calls: all batches are done, the signal is aborted, the
  target is reached, or a call failed.\<close>

lemma for_loop_stops:
  "i \<le> b \<Longrightarrow>
   length (calls (snd (for_loop g f key n d b i s))) = length (calls s) + (b - i)
   \<or> signal_aborted (snd (for_loop g f key n d b i s))
   \<or> n \<le> length (accumulatedPrompts (snd (for_loop g f key n d b i s)))
   \<or> (\<exists>e. fst (for_loop g f key n d b i s) = Threw e)"
proof (induction g f key n d b i s rule: for_loop.induct)
  case (1 g f key n d b i s)
  show ?case
  proof (cases "i < b")
    case False
    with 1(2) show ?thesis by (simp add: for_loop_done)
  next
    case True
    show ?thesis
    proof (cases rule: loop_body_cases [of s g f key n d i])
      case aborted
      then show ?thesis
        by (simp add: for_loop_Break [OF True aborted(2)] signal_aborted_def)
    next
      case full
      then show ?thesis by (simp add: for_loop_Break [OF True full(3)])
    next
      case (failed e)
      then show ?thesis by (simp add: for_loop_Throw [OF True failed(4)])
    next
      case (resolved r)
      let ?s' = "(if i = 0
              then (in_flight g f key n d i s)\<lparr>identifiedStyle := Some (style r),
                                              identifiedSubject := Some (subject r)\<rparr>
              else in_flight g f key n d i s)
             \<lparr>accumulatedPrompts := accumulatedPrompts s @ newPrompts r,
              prompts := prompts s @ newPrompts r\<rparr>"
      have "i + 1 \<le> b" using True by simp
      note ih = 1(1) [OF True resolved(4) this]
      have len: "length (calls ?s') + (b - (i + 1)) = length (calls s) + (b - i)"
        using True by simp
      show ?thesis
        using ih unfolding for_loop_Next [OF True resolved(4)] len .
    qed
  qed
qed

lemma loop_body_issues_call:
  assumes "\<not> signal_aborted s" and "length (accumulatedPrompts s) < n"
  shows "calls (state_of (loop_body g f key n d i s))
           = calls s @ [issued_call f key n d i (accumulatedPrompts s)]"
  by (cases "settled (g i (issued_call f key n d i (accumulatedPrompts s)))")
     (simp_all add: loop_body_call [OF assms])

text \<open>
  C3. Every iteration that starts with the signal not aborted and with prompts remaining
  issues one call, with no exclusion list when its index is 0 and with the whole accumulated
  list otherwise. In every run for a positive target count the call of batch 0 is issued;
  calls stop being issued only when all batches are done, the signal is aborted, the target
  is reached or a call has failed; the call of batch 0 is passed no exclusion list, and the
  call of every batch \<open>j > 0\<close> is passed the prompts that the calls of batches \<open>0\<close> to
  \<open>j - 1\<close>, all of which succeeded, returned, in order.
\<close>

theorem exclusion_list_is_accumulated:
  "(\<not> signal_aborted s \<and> length (accumulatedPrompts s) < n \<longrightarrow>
      (\<exists>c. calls (state_of (loop_body g f key n d i s)) = calls s @ [c]
           \<and> arg_existingPrompts c = (if i = 0 then None else Some (accumulatedPrompts s))))
   \<and> (imageFile s0 = Some f0 \<and> apiKey s0 \<noteq> [] \<longrightarrow>
        (\<exists>cs. calls (handleGeneratePrompts g s0) = calls s0 @ cs
           \<and> (0 < promptCount s0 \<longrightarrow> cs \<noteq> [])
           \<and> (length cs = totalBatches (promptCount s0)
                \<or> signal_aborted (handleGeneratePrompts g s0)
                \<or> promptCount s0 \<le> length (accumulatedPrompts (handleGeneratePrompts g s0))
                \<or> (cs \<noteq> [] \<and> isl (settled (g (length cs - 1) (last cs)))))
           \<and> accumulatedPrompts (handleGeneratePrompts g s0) = accumulated_before g cs (length cs)
           \<and> (\<forall>j<length cs.
                 arg_existingPrompts (cs ! j)
                   = (if j = 0 then None else Some (accumulated_before g cs j))
                 \<and> (\<forall>k<j. \<exists>r. settled (g k (cs ! k)) = Inr r
                                \<and> answered g cs k = newPrompts r))))"
proof -
  have body: "\<exists>c. calls (state_of (loop_body g f key n d i s)) = calls s @ [c]
           \<and> arg_existingPrompts c = (if i = 0 then None else Some (accumulatedPrompts s))"
    if "\<not> signal_aborted s" "length (accumulatedPrompts s) < n"
    by (intro exI [of _ "issued_call f key n d i (accumulatedPrompts s)"])
       (simp add: loop_body_issues_call [OF that] issued_call_def)
  have run: "\<exists>cs. calls (handleGeneratePrompts g s0) = calls s0 @ cs
           \<and> (0 < promptCount s0 \<longrightarrow> cs \<noteq> [])
           \<and> (length cs = totalBatches (promptCount s0)
                \<or> signal_aborted (handleGeneratePrompts g s0)
                \<or> promptCount s0 \<le> length (accumulatedPrompts (handleGeneratePrompts g s0))
                \<or> (cs \<noteq> [] \<and> isl (settled (g (length cs - 1) (last cs)))))
           \<and> accumulatedPrompts (handleGeneratePrompts g s0) = accumulated_before g cs (length cs)
           \<and> (\<forall>j<length cs.
                 arg_existingPrompts (cs ! j)
                   = (if j = 0 then None else Some (accumulated_before g cs j))
                 \<and> (\<forall>k<j. \<exists>r. settled (g k (cs ! k)) = Inr r
                                \<and> answered g cs k = newPrompts r))"
    if valid: "imageFile s0 = Some f0" "apiKey s0 \<noteq> []"
  proof -
    let ?n = "promptCount s0"
    let ?b = "totalBatches ?n"
    let ?loop = "for_loop g f0 (apiKey s0) ?n (imageDescription s0) ?b 0 (start_run s0)"
    obtain x t where loop: "?loop = (x, t)" by (cases ?loop)
    have fin: "handleGeneratePrompts g s0 = finish_run (x, t)"
      using handleGeneratePrompts_run [OF valid, of g] loop by simp
    have "\<exists>cs. (case fst ?loop of
            Threw e \<Rightarrow>
              cs \<noteq> []
              \<and> after_batches g f0 (apiKey s0) ?n (imageDescription s0) (calls s0) cs
                   (length cs - 1) (snd ?loop)
              \<and> settled (g (length cs - 1) (last cs)) = Inl e
          | _ \<Rightarrow> after_batches g f0 (apiKey s0) ?n (imageDescription s0) (calls s0) cs
                   (length cs) (snd ?loop))"
      by (rule for_loop_batches [OF after_batches_start]) simp
    then obtain cs where cs:
      "case x of
         Threw e \<Rightarrow>
           cs \<noteq> []
           \<and> after_batches g f0 (apiKey s0) ?n (imageDescription s0) (calls s0) cs
                (length cs - 1) t
           \<and> settled (g (length cs - 1) (last cs)) = Inl e
       | _ \<Rightarrow> after_batches g f0 (apiKey s0) ?n (imageDescription s0) (calls s0) cs
                (length cs) t"
      unfolding loop fst_conv snd_conv by blast
    define m where "m = (case x of Threw e \<Rightarrow> length cs - 1 | _ \<Rightarrow> length cs)"
    have inv: "after_batches g f0 (apiKey s0) ?n (imageDescription s0) (calls s0) cs m t"
      using cs unfolding m_def by (cases x) simp_all
    have m: "length cs - 1 \<le> m"
      unfolding m_def by (cases x) simp_all
    have failed: "cs \<noteq> [] \<and> settled (g (length cs - 1) (last cs)) = Inl e" if "x = Threw e" for e
      using cs that by simp
    from inv have calls: "calls t = calls s0 @ cs"
      and built: "\<And>j. j < length cs \<Longrightarrow>
                    cs ! j = issued_call f0 (apiKey s0) ?n (imageDescription s0) j
                               (accumulated_before g cs j)"
      and ok: "\<And>j. j < m \<Longrightarrow> \<not> isl (settled (g j (cs ! j)))"
      and acc: "accumulatedPrompts t = accumulated_before g cs (length cs)"
      unfolding after_batches_def by blast+
    have nonempty: "cs \<noteq> []" if pos: "0 < ?n"
    proof -
      have b: "0 < ?b" using pos by (simp add: totalBatches_div)
      let ?c0 = "issued_call f0 (apiKey s0) ?n (imageDescription s0) 0 []"
      have "length (calls s0) < length (calls (snd ?loop))"
      proof (cases "settled (g 0 ?c0)")
        case (Inl e)
        then show ?thesis by (simp add: for_loop_first [OF pos b])
      next
        case (Inr r)
        let ?s1 = "(in_flight g f0 (apiKey s0) ?n (imageDescription s0) 0 (start_run s0))
               \<lparr>identifiedStyle := Some (style r), identifiedSubject := Some (subject r),
                accumulatedPrompts := newPrompts r, prompts := newPrompts r\<rparr>"
        have "length (calls ?s1)
                \<le> length (calls (snd (for_loop g f0 (apiKey s0) ?n (imageDescription s0) ?b 1 ?s1)))"
          by (rule for_loop_calls_mono)
        then show ?thesis
          using Inr by (simp add: for_loop_first [OF pos b])
      qed
      then show ?thesis using calls loop by auto
    qed
    have "length (calls t) = length (calls (start_run s0)) + (?b - 0)
          \<or> signal_aborted t \<or> ?n \<le> length (accumulatedPrompts t) \<or> (\<exists>e. x = Threw e)"
      using for_loop_stops [of 0 ?b g f0 "apiKey s0" ?n "imageDescription s0" "start_run s0"]
      unfolding loop fst_conv snd_conv by simp
    then have "length cs = ?b \<or> signal_aborted t \<or> ?n \<le> length (accumulatedPrompts t)
                \<or> (\<exists>e. x = Threw e)"
      using calls by simp
    then have stop: "length cs = ?b \<or> signal_aborted t \<or> ?n \<le> length (accumulatedPrompts t)
                \<or> (cs \<noteq> [] \<and> isl (settled (g (length cs - 1) (last cs))))"
    proof (elim disjE exE)
      fix e assume "x = Threw e"
      from failed [OF this] show ?thesis by simp
    qed simp_all
    have excl: "arg_existingPrompts (cs ! j)
                  = (if j = 0 then None else Some (accumulated_before g cs j))"
      if "j < length cs" for j
      by (subst built [OF that]) (simp add: issued_call_def)
    have prod: "\<exists>r. settled (g k (cs ! k)) = Inr r \<and> answered g cs k = newPrompts r"
      if "j < length cs" "k < j" for j k
    proof -
      from that m have "k < m" by simp
      from ok [OF this] obtain r where "settled (g k (cs ! k)) = Inr r"
        by (cases "settled (g k (cs ! k))") simp_all
      then show ?thesis by (simp add: answered_def)
    qed
    have f1: "calls (handleGeneratePrompts g s0) = calls s0 @ cs"
      unfolding fin using calls by simp
    have f2: "accumulatedPrompts (handleGeneratePrompts g s0) = accumulated_before g cs (length cs)"
      unfolding fin using acc by simp
    have f3: "signal_aborted (handleGeneratePrompts g s0) = signal_aborted t"
      unfolding fin by (simp add: signal_aborted_def)
    have f4: "accumulatedPrompts (handleGeneratePrompts g s0) = accumulatedPrompts t"
      unfolding fin by simp
    from stop have stop': "length cs = ?b \<or> signal_aborted (handleGeneratePrompts g s0)
                \<or> ?n \<le> length (accumulatedPrompts (handleGeneratePrompts g s0))
                \<or> (cs \<noteq> [] \<and> isl (settled (g (length cs - 1) (last cs))))"
      unfolding f3 f4 .
    show ?thesis
    proof (intro exI [of _ cs] conjI allI impI)
      show "calls (handleGeneratePrompts g s0) = calls s0 @ cs" by (rule f1)
      show "cs \<noteq> []" if "0 < ?n" by (rule nonempty [OF that])
      show "length cs = ?b \<or> signal_aborted (handleGeneratePrompts g s0)
                \<or> ?n \<le> length (accumulatedPrompts (handleGeneratePrompts g s0))
                \<or> (cs \<noteq> [] \<and> isl (settled (g (length cs - 1) (last cs))))"
        by (rule stop')
      show "accumulatedPrompts (handleGeneratePrompts g s0) = accumulated_before g cs (length cs)"
        by (rule f2)
      show "arg_existingPrompts (cs ! j)
                   = (if j = 0 then None else Some (accumulated_before g cs j))"
        if "j < length cs" for j by (rule excl [OF that])
      show "\<exists>r. settled (g k (cs ! k)) = Inr r \<and> answered g cs k = newPrompts r"
        if "j < length cs" "k < j" for j k by (rule prod [OF that])
    qed
  qed
  show ?thesis
  proof (intro conjI impI)
    assume "\<not> signal_aborted s \<and> length (accumulatedPrompts s) < n"
    then show "\<exists>c. calls (state_of (loop_body g f key n d i s)) = calls s @ [c]
           \<and> arg_existingPrompts c = (if i = 0 then None else Some (accumulatedPrompts s))"
      using body by blast
  next
    assume "imageFile s0 = Some f0 \<and> apiKey s0 \<noteq> []"
    then show "\<exists>cs. calls (handleGeneratePrompts g s0) = calls s0 @ cs
           \<and> (0 < promptCount s0 \<longrightarrow> cs \<noteq> [])
           \<and> (length cs = totalBatches (promptCount s0)
                \<or> signal_aborted (handleGeneratePrompts g s0)
                \<or> promptCount s0 \<le> length (accumulatedPrompts (handleGeneratePrompts g s0))
                \<or> (cs \<noteq> [] \<and> isl (settled (g (length cs - 1) (last cs)))))
           \<and> accumulatedPrompts (handleGeneratePrompts g s0) = accumulated_before g cs (length cs)
           \<and> (\<forall>j<length cs.
                 arg_existingPrompts (cs ! j)
                   = (if j = 0 then None else Some (accumulated_before g cs j))
                 \<and> (\<forall>k<j. \<exists>r. settled (g k (cs ! k)) = Inr r
                                \<and> answered g cs k = newPrompts r))"
      using run by blast
  qed
qed

theorem exclusion_list_is_accumulated_witness:
  "(\<exists>c. calls (state_of (loop_body exact_client ''cat.png'' ''key'' 10 ''a cat'' 0
                           (start_run (example_state 10)))) = [c]
        \<and> arg_existingPrompts c = None)
   \<and> map arg_existingPrompts (calls (handleGeneratePrompts exact_client (example_state 10)))
       = [None, Some (replicate 5 ''a castle, bold outlines'')]"
proof -
  let ?g = exact_client
  let ?t0 = "start_run (example_state 10)"
  let ?c0 = "issued_call ''cat.png'' ''key'' 10 ''a cat'' 0 (accumulatedPrompts ?t0)"
  note inst = exclusion_list_is_accumulated [of ?t0 10 ?g "''cat.png''" "''key''" "''a cat''" 0
      "example_state 10" "''cat.png''"]
  have first: "\<exists>c. calls (state_of (loop_body ?g ''cat.png'' ''key'' 10 ''a cat'' 0 ?t0)) = [c]
                 \<and> arg_existingPrompts c = None"
    using inst [THEN conjunct1] by simp
  have r0: "settled (?g 0 ?c0) = Inr (example_result 5)"
    by (simp add: exact_client_def issued_call_def)
  from loop_body_resolved [of ?t0 10 ?g 0 "''cat.png''" "''key''" "''a cat''", OF _ _ r0]
  obtain t1 where 1: "loop_body ?g ''cat.png'' ''key'' 10 ''a cat'' 0 ?t0 = Next t1"
    and a1: "length (accumulatedPrompts t1) = 5"
    and c1: "calls t1 = [?c0]"
    and k1: "controller t1 = Some False"
    by (auto simp: example_result_def in_flight_controller exact_client_def)
  let ?c1 = "issued_call ''cat.png'' ''key'' 10 ''a cat'' 1 (accumulatedPrompts t1)"
  have n1: "\<not> signal_aborted t1" using k1 by (simp add: signal_aborted_def)
  have l1: "length (accumulatedPrompts t1) < 10" using a1 by simp
  have r1: "settled (?g 1 ?c1) = Inr (example_result 5)"
    using a1 by (simp add: exact_client_def issued_call_def)
  from n1 l1 r1
    loop_body_resolved [of t1 10 ?g 1 "''cat.png''" "''key''" "''a cat''" "example_result 5"]
  obtain t2 where 2: "loop_body ?g ''cat.png'' ''key'' 10 ''a cat'' 1 t1 = Next t2"
    and c2: "calls t2 = [?c0, ?c1]"
    using c1 by auto
  have e1: "for_loop ?g ''cat.png'' ''key'' 10 ''a cat'' 2 0 ?t0
              = for_loop ?g ''cat.png'' ''key'' 10 ''a cat'' 2 1 t1"
    using for_loop_Next [of 0 2, OF _ 1] by simp
  have e2: "for_loop ?g ''cat.png'' ''key'' 10 ''a cat'' 2 1 t1
              = for_loop ?g ''cat.png'' ''key'' 10 ''a cat'' 2 2 t2"
    using for_loop_Next [of 1 2, OF _ 2] by (simp add: numeral_2_eq_2)
  have e3: "for_loop ?g ''cat.png'' ''key'' 10 ''a cat'' 2 2 t2 = (Completed, t2)"
    by (rule for_loop_done) simp
  have "for_loop ?g ''cat.png'' ''key'' 10 ''a cat'' 2 0 ?t0 = (Completed, t2)"
    by (simp only: e1 e2 e3)
  then have run: "calls (handleGeneratePrompts ?g (example_state 10)) = [?c0, ?c1]"
    using c2 by (simp add: handleGeneratePrompts_run totalBatches_div)
  from inst [THEN conjunct2] obtain cs where
    cs: "calls (handleGeneratePrompts ?g (example_state 10)) = cs"
    and ex: "\<And>j. j < length cs \<Longrightarrow>
               arg_existingPrompts (cs ! j)
                 = (if j = 0 then None else Some (accumulated_before ?g cs j))"
    by auto
  from run cs have shape: "cs = [?c0, ?c1]" by simp
  have "accumulated_before ?g cs 1 = replicate 5 ''a castle, bold outlines''"
    unfolding shape
    by (simp add: accumulated_before_def answered_def exact_client_def issued_call_def
          example_result_def)
  with ex [of 0] ex [of 1] have "map arg_existingPrompts cs
       = [None, Some (replicate 5 ''a castle, bold outlines'')]"
    unfolding shape by simp
  with first cs show ?thesis by simp
qed

subsection \<open>Failure of a batch\<close>

text \<open>
  C5. In every run, a call that fails is the last call of the run; the prompts of the batches
  before it stay displayed; and the one generic message is shown, unless the error is named
  \<open>AbortError\<close>, in which case no message is shown. A run none of whose calls fails, ended by
  cancellation or not, shows no message.
\<close>

theorem failed_batch_ends_run:
  assumes "imageFile s = Some f" and "apiKey s \<noteq> []"
  shows "\<exists>cs. calls (handleGeneratePrompts g s) = calls s @ cs
           \<and> (\<forall>j e. j < length cs \<and> settled (g j (cs ! j)) = Inl e \<longrightarrow>
                 j = length cs - 1
                 \<and> prompts (handleGeneratePrompts g s) = accumulated_before g cs j
                 \<and> error (handleGeneratePrompts g s)
                     = (if err_name e = Some ''AbortError'' then None
                        else Some ''Failed to generate prompts. Check your API key or try again later.''))
           \<and> ((\<forall>j<length cs. \<not> isl (settled (g j (cs ! j)))) \<longrightarrow>
                 error (handleGeneratePrompts g s) = None)"
proof -
  from run_batches [OF assms, of g] obtain cs m left where
    inv: "after_batches g f (apiKey s) (promptCount s) (imageDescription s) (calls s) cs m
            (handleGeneratePrompts g s)"
    and err: "error (handleGeneratePrompts g s)
               = (case left of
                    Threw e \<Rightarrow> if err_name e \<noteq> Some ''AbortError''
                               then Some ''Failed to generate prompts. Check your API key or try again later.''
                               else None
                  | _ \<Rightarrow> None)"
    and m: "case left of
              Threw e \<Rightarrow> cs \<noteq> [] \<and> m = length cs - 1
                         \<and> settled (g (length cs - 1) (last cs)) = Inl e
            | _ \<Rightarrow> m = length cs"
    by blast
  from inv have calls: "calls (handleGeneratePrompts g s) = calls s @ cs"
    and ok: "\<And>j. j < m \<Longrightarrow> \<not> isl (settled (g j (cs ! j)))"
    and shown: "prompts (handleGeneratePrompts g s) = accumulated_before g cs (length cs)"
    unfolding after_batches_def by simp_all
  have failing: "j = length cs - 1
                 \<and> prompts (handleGeneratePrompts g s) = accumulated_before g cs j
                 \<and> error (handleGeneratePrompts g s)
                     = (if err_name e = Some ''AbortError'' then None
                        else Some ''Failed to generate prompts. Check your API key or try again later.'')"
    if j: "j < length cs" and e: "settled (g j (cs ! j)) = Inl e" for j e
  proof (cases left)
    case (Threw e')
    with m have ne: "cs \<noteq> []" and m': "m = length cs - 1"
      and last: "settled (g (length cs - 1) (last cs)) = Inl e'"
      by simp_all
    from ok [of j] e have "\<not> j < m" by auto
    with j m' have jl: "j = length cs - 1" by simp
    with last ne e have "e' = e" by (simp add: last_conv_nth)
    have "accumulated_before g cs (length cs) = accumulated_before g cs (Suc j)"
      using jl ne by simp
    also have "\<dots> = accumulated_before g cs j"
      using e by (simp add: accumulated_before_Suc answered_def)
    finally show ?thesis
      using jl shown err Threw \<open>e' = e\<close> by simp
  next
    case Completed
    with m ok [of j] j e show ?thesis by simp
  next
    case Broke
    with m ok [of j] j e show ?thesis by simp
  qed
  have clean: "error (handleGeneratePrompts g s) = None"
    if all: "\<forall>j<length cs. \<not> isl (settled (g j (cs ! j)))"
  proof (cases left)
    case (Threw e')
    with m have ne: "cs \<noteq> []" and last: "settled (g (length cs - 1) (last cs)) = Inl e'"
      by simp_all
    from ne all have "\<not> isl (settled (g (length cs - 1) (cs ! (length cs - 1))))" by simp
    with last ne show ?thesis by (simp add: last_conv_nth)
  qed (simp_all add: err)
  from calls failing clean show ?thesis by blast
qed

theorem failed_batch_ends_run_witness:
  "error (handleGeneratePrompts failing_client (example_state 5))
     = Some ''Failed to generate prompts. Check your API key or try again later.''
   \<and> prompts (handleGeneratePrompts failing_client (example_state 5)) = []"
proof -
  let ?c = "issued_call ''cat.png'' ''key'' 5 ''a cat'' 0 []"
  have c: "calls (handleGeneratePrompts failing_client (example_state 5)) = [?c]"
    by (simp add: handleGeneratePrompts_run totalBatches_div for_loop_first failing_client_def)
  have e: "settled (failing_client 0 ?c) = Inl (new_Error ''503 Service Unavailable'')"
    by (simp add: failing_client_def)
  from failed_batch_ends_run [of "example_state 5" "''cat.png''" failing_client]
  obtain cs where cs: "calls (handleGeneratePrompts failing_client (example_state 5)) = cs"
    and f: "\<And>j e. j < length cs \<Longrightarrow> settled (failing_client j (cs ! j)) = Inl e \<Longrightarrow>
              prompts (handleGeneratePrompts failing_client (example_state 5))
                = accumulated_before failing_client cs j
              \<and> error (handleGeneratePrompts failing_client (example_state 5))
                  = (if err_name e = Some ''AbortError'' then None
                     else Some ''Failed to generate prompts. Check your API key or try again later.'')"
    by auto
  from c cs have "cs = [?c]" by simp
  with f [of 0 "new_Error ''503 Service Unavailable''"] e show ?thesis
    by (simp add: new_Error_def accumulated_before_def)
qed

subsection \<open>Cancellation between batches\<close>

text \<open>While no call of the run has been cancelled in flight, the signal is not aborted; the
  first call during which Cancel is pressed is the last call of the loop.\<close>

lemma for_loop_cancelled:
  "calls s = pre @ cs \<Longrightarrow> length cs = i \<Longrightarrow> controller s = Some False \<Longrightarrow>
   \<forall>j<length cs. \<not> cancelled_in_flight (g j (cs ! j)) \<Longrightarrow>
   \<exists>cs'. calls (snd (for_loop g f key n d b i s)) = pre @ cs'
     \<and> (\<forall>j<length cs'. cancelled_in_flight (g j (cs' ! j)) \<longrightarrow>
            j = length cs' - 1
            \<and> (\<not> isl (settled (g j (cs' ! j))) \<longrightarrow>
                 fst (for_loop g f key n d b i s) = (if j + 1 < b then Broke else Completed)
                 \<and> console (snd (for_loop g f key n d b i s))
                     = (if j + 1 < b
                        then console s @ [ConsoleLog ''Generation aborted by user.'']
                        else console s)))"
proof (induction g f key n d b i s arbitrary: cs rule: for_loop.induct)
  case (1 g f key n d b i s)
  have na: "\<not> signal_aborted s" using 1(4) by (simp add: signal_aborted_def)
  have quiet: "\<And>j. j < length cs \<Longrightarrow> \<not> cancelled_in_flight (g j (cs ! j))"
    using 1(5) by blast
  have same: "\<exists>cs'. calls t = pre @ cs'
     \<and> (\<forall>j<length cs'. cancelled_in_flight (g j (cs' ! j)) \<longrightarrow>
            j = length cs' - 1
            \<and> (\<not> isl (settled (g j (cs' ! j))) \<longrightarrow>
                 x = (if j + 1 < b then Broke else Completed)
                 \<and> console t
                     = (if j + 1 < b
                        then console s @ [ConsoleLog ''Generation aborted by user.'']
                        else console s)))"
    if "calls t = calls s" for t x
    using that 1(2) quiet by (intro exI [of _ cs]) simp
  show ?case
  proof (cases "i < b")
    case False
    show ?thesis
      unfolding for_loop_done [OF False] snd_conv fst_conv by (rule same) simp
  next
    case True
    let ?c = "issued_call f key n d i (accumulatedPrompts s)"
    have lastc: "(cs @ [?c]) ! i = ?c"
      using 1(3) by (simp add: nth_append)
    show ?thesis
    proof (cases rule: loop_body_cases [of s g f key n d i])
      case aborted
      with na show ?thesis by simp
    next
      case full
      show ?thesis
        unfolding for_loop_Break [OF True full(3)] snd_conv fst_conv by (rule same) simp
    next
      case (failed e)
      have "\<exists>cs'. calls (in_flight g f key n d i s) = pre @ cs'
        \<and> (\<forall>j<length cs'. cancelled_in_flight (g j (cs' ! j)) \<longrightarrow>
            j = length cs' - 1
            \<and> (\<not> isl (settled (g j (cs' ! j))) \<longrightarrow>
                 Threw e = (if j + 1 < b then Broke else Completed)
                 \<and> console (in_flight g f key n d i s)
                     = (if j + 1 < b
                        then console s @ [ConsoleLog ''Generation aborted by user.'']
                        else console s)))"
      proof (intro exI [of _ "cs @ [?c]"] conjI allI impI)
        show "calls (in_flight g f key n d i s) = pre @ cs @ [?c]"
          using 1(2) by simp
      next
        fix j assume j: "j < length (cs @ [?c])" and c: "cancelled_in_flight (g j ((cs @ [?c]) ! j))"
        from j c quiet [of j] show jl: "j = length (cs @ [?c]) - 1"
          by (cases "j < length cs") (simp_all add: nth_append)
        assume "\<not> isl (settled (g j ((cs @ [?c]) ! j)))"
        with jl failed(3) 1(3) lastc have False by simp
        then show "Threw e = (if j + 1 < b then Broke else Completed)"
          and "console (in_flight g f key n d i s)
                     = (if j + 1 < b
                        then console s @ [ConsoleLog ''Generation aborted by user.'']
                        else console s)"
          by blast+
      qed
      then show ?thesis
        unfolding for_loop_Throw [OF True failed(4)] snd_conv fst_conv .
    next
      case (resolved r)
      let ?s' = "(if i = 0
              then (in_flight g f key n d i s)\<lparr>identifiedStyle := Some (style r),
                                              identifiedSubject := Some (subject r)\<rparr>
              else in_flight g f key n d i s)
             \<lparr>accumulatedPrompts := accumulatedPrompts s @ newPrompts r,
              prompts := prompts s @ newPrompts r\<rparr>"
      have calls': "calls ?s' = pre @ cs @ [?c]" using 1(2) by simp
      have console': "console ?s' = console s" by simp
      have len': "length (cs @ [?c]) = i + 1" using 1(3) by simp
      show ?thesis
      proof (cases "cancelled_in_flight (g i ?c)")
        case False
        have ctl: "controller ?s' = Some False"
          using 1(4) False by (cases "i = 0") (simp_all add: in_flight_controller)
        have quiet': "\<forall>j<length (cs @ [?c]). \<not> cancelled_in_flight (g j ((cs @ [?c]) ! j))"
        proof (intro allI impI)
          fix j assume "j < length (cs @ [?c])"
          then have "j < length cs \<or> j = i" using 1(3) by auto
          then show "\<not> cancelled_in_flight (g j ((cs @ [?c]) ! j))"
          proof
            assume "j < length cs"
            then show ?thesis using quiet [of j] by (simp add: nth_append)
          next
            assume "j = i"
            then show ?thesis using False lastc by simp
          qed
        qed
        from 1(1) [OF True resolved(4) calls' len' ctl quiet'] show ?thesis
          unfolding for_loop_Next [OF True resolved(4)] console' .
      next
        case cancelled: True
        have ctl: "controller ?s' = Some True"
          using 1(4) cancelled by (cases "i = 0") (simp_all add: in_flight_controller)
        then have ab: "signal_aborted ?s'" by (simp only: signal_aborted_def)
        have loop: "for_loop g f key n d b i s
                = (if i + 1 < b
                   then (Broke, ?s'\<lparr>console := console ?s' @ [ConsoleLog ''Generation aborted by user.'']\<rparr>)
                   else (Completed, ?s'))"
          unfolding for_loop_Next [OF True resolved(4)] by (rule for_loop_aborted [OF ab])
        show ?thesis
        proof (intro exI [of _ "cs @ [?c]"] conjI allI impI)
          show "calls (snd (for_loop g f key n d b i s)) = pre @ cs @ [?c]"
            unfolding loop using calls' by simp
        next
          fix j assume j: "j < length (cs @ [?c])" and c: "cancelled_in_flight (g j ((cs @ [?c]) ! j))"
          from j c quiet [of j] show jl: "j = length (cs @ [?c]) - 1"
            by (cases "j < length cs") (simp_all add: nth_append)
          then have ji: "j = i" using 1(3) by simp
          show "fst (for_loop g f key n d b i s) = (if j + 1 < b then Broke else Completed)"
            unfolding loop ji by simp
          show "console (snd (for_loop g f key n d b i s))
                     = (if j + 1 < b
                        then console s @ [ConsoleLog ''Generation aborted by user.'']
                        else console s)"
            unfolding loop ji by simp
        qed
      qed
    qed
  qed
qed

text \<open>
  C6. Whenever an iteration starts with the signal aborted, the loop ends there: no call is
  issued and nothing but the console changes; this is the check at every batch boundary,
  that of the first batch included. In every run, a call during which Cancel is pressed is
  the last call of the run; if that call succeeds the run shows no error message, and if a
  further batch was due the run ends through the cancellation branch, logging
  "Generation aborted by user.".
\<close>

theorem no_batch_after_cancellation:
  "(signal_aborted s \<longrightarrow>
      for_loop g f key n d b i s =
        (if i < b
         then (Broke, s\<lparr>console := console s @ [ConsoleLog ''Generation aborted by user.'']\<rparr>)
         else (Completed, s)))
   \<and> (imageFile s0 = Some f0 \<and> apiKey s0 \<noteq> [] \<longrightarrow>
        (\<exists>cs. calls (handleGeneratePrompts g s0) = calls s0 @ cs
           \<and> (\<forall>j<length cs. cancelled_in_flight (g j (cs ! j)) \<longrightarrow>
                 j = length cs - 1
                 \<and> (\<not> isl (settled (g j (cs ! j))) \<longrightarrow>
                      error (handleGeneratePrompts g s0) = None
                      \<and> (j + 1 < totalBatches (promptCount s0) \<longrightarrow>
                           console (handleGeneratePrompts g s0)
                             = console s0 @ [ConsoleLog ''Generation aborted by user.''])))))"
proof -
  have run: "\<exists>cs. calls (handleGeneratePrompts g s0) = calls s0 @ cs
           \<and> (\<forall>j<length cs. cancelled_in_flight (g j (cs ! j)) \<longrightarrow>
                 j = length cs - 1
                 \<and> (\<not> isl (settled (g j (cs ! j))) \<longrightarrow>
                      error (handleGeneratePrompts g s0) = None
                      \<and> (j + 1 < totalBatches (promptCount s0) \<longrightarrow>
                           console (handleGeneratePrompts g s0)
                             = console s0 @ [ConsoleLog ''Generation aborted by user.''])))"
    if valid: "imageFile s0 = Some f0" "apiKey s0 \<noteq> []"
  proof -
    let ?b = "totalBatches (promptCount s0)"
    let ?loop = "for_loop g f0 (apiKey s0) (promptCount s0) (imageDescription s0) ?b 0
                   (start_run s0)"
    obtain x t where loop: "?loop = (x, t)" by (cases ?loop)
    have fin: "handleGeneratePrompts g s0 = finish_run (x, t)"
      using handleGeneratePrompts_run [OF valid, of g] loop by simp
    have err: "error t = None"
      using for_loop_error [of g f0 "apiKey s0" "promptCount s0" "imageDescription s0" ?b 0
              "start_run s0"] loop by simp
    have "\<exists>cs'. calls (snd ?loop) = calls s0 @ cs'
      \<and> (\<forall>j<length cs'. cancelled_in_flight (g j (cs' ! j)) \<longrightarrow>
            j = length cs' - 1
            \<and> (\<not> isl (settled (g j (cs' ! j))) \<longrightarrow>
                 fst ?loop = (if j + 1 < ?b then Broke else Completed)
                 \<and> console (snd ?loop)
                     = (if j + 1 < ?b
                        then console (start_run s0) @ [ConsoleLog ''Generation aborted by user.'']
                        else console (start_run s0))))"
      by (rule for_loop_cancelled [where cs = "[]"]) simp_all
    then obtain cs where calls: "calls t = calls s0 @ cs"
      and c: "\<And>j. j < length cs \<Longrightarrow> cancelled_in_flight (g j (cs ! j)) \<Longrightarrow>
                j = length cs - 1
                \<and> (\<not> isl (settled (g j (cs ! j))) \<longrightarrow>
                     x = (if j + 1 < ?b then Broke else Completed)
                     \<and> console t
                         = (if j + 1 < ?b
                            then console s0 @ [ConsoleLog ''Generation aborted by user.'']
                            else console s0))"
      unfolding loop by auto
    have "j = length cs - 1
          \<and> (\<not> isl (settled (g j (cs ! j))) \<longrightarrow>
                error (handleGeneratePrompts g s0) = None
                \<and> (j + 1 < ?b \<longrightarrow>
                     console (handleGeneratePrompts g s0)
                       = console s0 @ [ConsoleLog ''Generation aborted by user.'']))"
      if "j < length cs" "cancelled_in_flight (g j (cs ! j))" for j
      using c [OF that] err unfolding fin
      by (auto simp: finish_run_error finish_run_console)
    moreover have "calls (handleGeneratePrompts g s0) = calls s0 @ cs"
      unfolding fin using calls by simp
    ultimately show ?thesis by blast
  qed
  show ?thesis
    using run by (simp add: for_loop_aborted)
qed

theorem no_batch_after_cancellation_witness:
  "for_loop cancelled_client ''cat.png'' ''key'' 10 ''a cat'' 2 1
     (snd (for_loop cancelled_client ''cat.png'' ''key'' 10 ''a cat'' 1 0
             (start_run (example_state 10))))
   = (Broke,
      (snd (for_loop cancelled_client ''cat.png'' ''key'' 10 ''a cat'' 1 0
              (start_run (example_state 10))))
        \<lparr>console := [ConsoleLog ''Generation aborted by user.'']\<rparr>)
   \<and> length (calls (handleGeneratePrompts late_cancel_client (example_state 15))) = 2
   \<and> error (handleGeneratePrompts late_cancel_client (example_state 15)) = None
   \<and> console (handleGeneratePrompts late_cancel_client (example_state 15))
       = [ConsoleLog ''Generation aborted by user.'']"
proof -
  let ?s1 = "snd (for_loop cancelled_client ''cat.png'' ''key'' 10 ''a cat'' 1 0
                    (start_run (example_state 10)))"
  have ab: "signal_aborted ?s1" and con: "console ?s1 = []"
    by (simp_all add: for_loop_first for_loop_done cancelled_client_def signal_aborted_def
          in_flight_controller)
  note first = no_batch_after_cancellation [of ?s1 cancelled_client "''cat.png''" "''key''" 10
      "''a cat''" 2 1 "example_state 15" "''cat.png''", THEN conjunct1]
  note run = no_batch_after_cancellation [of ?s1 late_cancel_client "''cat.png''" "''key''" 10
      "''a cat''" 2 1 "example_state 15" "''cat.png''", THEN conjunct2]
  let ?g = late_cancel_client
  let ?t0 = "start_run (example_state 15)"
  let ?c0 = "issued_call ''cat.png'' ''key'' 15 ''a cat'' 0 (accumulatedPrompts ?t0)"
  have r0: "settled (?g 0 ?c0) = Inr (example_result 5)"
    by (simp add: late_cancel_client_def issued_call_def)
  from loop_body_resolved [of ?t0 15 ?g 0 "''cat.png''" "''key''" "''a cat''", OF _ _ r0]
  obtain t1 where 1: "loop_body ?g ''cat.png'' ''key'' 15 ''a cat'' 0 ?t0 = Next t1"
    and a1: "length (accumulatedPrompts t1) = 5"
    and c1: "length (calls t1) = 1"
    and k1: "controller t1 = Some False"
    by (auto simp: example_result_def in_flight_controller late_cancel_client_def)
  let ?c1 = "issued_call ''cat.png'' ''key'' 15 ''a cat'' 1 (accumulatedPrompts t1)"
  have n1: "\<not> signal_aborted t1" using k1 by (simp add: signal_aborted_def)
  have l1: "length (accumulatedPrompts t1) < 15" using a1 by simp
  have r1: "settled (?g 1 ?c1) = Inr (example_result 5)"
    using a1 by (simp add: late_cancel_client_def issued_call_def)
  from n1 l1 r1
    loop_body_resolved [of t1 15 ?g 1 "''cat.png''" "''key''" "''a cat''" "example_result 5"]
  obtain t2 where 2: "loop_body ?g ''cat.png'' ''key'' 15 ''a cat'' 1 t1 = Next t2"
    and c2: "length (calls t2) = 2"
    and k2: "controller t2 = Some True"
    using c1 k1 by (auto simp: in_flight_controller late_cancel_client_def)
  have ab2: "signal_aborted t2" using k2 by (simp add: signal_aborted_def)
  have e1: "for_loop ?g ''cat.png'' ''key'' 15 ''a cat'' 3 0 ?t0
              = for_loop ?g ''cat.png'' ''key'' 15 ''a cat'' 3 1 t1"
    using for_loop_Next [of 0 3, OF _ 1] by simp
  have e2: "for_loop ?g ''cat.png'' ''key'' 15 ''a cat'' 3 1 t1
              = for_loop ?g ''cat.png'' ''key'' 15 ''a cat'' 3 2 t2"
    using for_loop_Next [of 1 3, OF _ 2] by (simp add: numeral_2_eq_2)
  have "calls (snd (for_loop ?g ''cat.png'' ''key'' 15 ''a cat'' 3 0 ?t0)) = calls t2"
    unfolding e1 e2 by (simp add: for_loop_aborted [OF ab2])
  then have len: "length (calls (handleGeneratePrompts ?g (example_state 15))) = 2"
    using c2
    by (cases "for_loop ?g ''cat.png'' ''key'' 15 ''a cat'' 3 0 ?t0")
       (simp add: handleGeneratePrompts_run totalBatches_div)
  from run obtain cs where cs: "calls (handleGeneratePrompts ?g (example_state 15)) = cs"
    and c: "\<And>j. j < length cs \<Longrightarrow> cancelled_in_flight (?g j (cs ! j)) \<Longrightarrow>
              (\<not> isl (settled (?g j (cs ! j))) \<longrightarrow>
                 error (handleGeneratePrompts ?g (example_state 15)) = None
                 \<and> (j + 1 < totalBatches 15 \<longrightarrow>
                      console (handleGeneratePrompts ?g (example_state 15))
                        = [ConsoleLog ''Generation aborted by user.'']))"
    by auto
  from len cs have "1 < length cs" by simp
  from c [OF this] have
    "error (handleGeneratePrompts ?g (example_state 15)) = None
     \<and> console (handleGeneratePrompts ?g (example_state 15))
         = [ConsoleLog ''Generation aborted by user.'']"
    by (simp add: late_cancel_client_def totalBatches_div)
  with len first ab con show ?thesis by simp
qed

subsection \<open>The number and the sizes of the batches\<close>

lemma for_loop_exact:
  assumes "\<forall>i c. \<not> cancelled_in_flight (g i c)
             \<and> (\<exists>r. settled (g i c) = Inr r \<and> length (newPrompts r) = nat (arg_count c))"
  shows "\<not> signal_aborted s \<Longrightarrow> length (accumulatedPrompts s) = min n (5 * i) \<Longrightarrow>
         i \<le> b \<Longrightarrow> 5 * b < n + 5 \<Longrightarrow>
         fst (for_loop g f key n d b i s) = Completed
         \<and> length (accumulatedPrompts (snd (for_loop g f key n d b i s))) = min n (5 * b)
         \<and> length (calls (snd (for_loop g f key n d b i s))) = length (calls s) + (b - i)"
  using assms
proof (induction g f key n d b i s rule: for_loop.induct)
  case (1 g f key n d b i s)
  show ?case
  proof (cases "i < b")
    case False
    with 1(4) have "i = b" by simp
    then show ?thesis using 1(3) by (simp add: for_loop_done)
  next
    case True
    let ?c = "issued_call f key n d i (accumulatedPrompts s)"
    from True 1(5) have small: "5 * i + 5 < n + 5" by simp
    with 1(3) have len: "length (accumulatedPrompts s) = 5 * i" by simp
    with small have lt: "length (accumulatedPrompts s) < n" by simp
    from 1(6) obtain r where nc: "\<not> cancelled_in_flight (g i ?c)"
      and r: "settled (g i ?c) = Inr r" "length (newPrompts r) = nat (arg_count ?c)"
      by blast
    let ?s' = "(if i = 0
                then (in_flight g f key n d i s)\<lparr>identifiedStyle := Some (style r),
                                                identifiedSubject := Some (subject r)\<rparr>
                else in_flight g f key n d i s)
               \<lparr>accumulatedPrompts := accumulatedPrompts s @ newPrompts r,
                prompts := prompts s @ newPrompts r\<rparr>"
    have body: "loop_body g f key n d i s = Next ?s'"
      using loop_body_call [OF 1(2) lt, of g f key d i] r(1) by simp
    have ctl: "controller ?s' = controller s"
      using nc by (cases "i = 0") (simp_all add: in_flight_controller)
    then have na: "\<not> signal_aborted ?s'"
      using 1(2) by (simp add: signal_aborted_def)
    have "length (newPrompts r) = min 5 (n - 5 * i)"
      using r(2) len by (simp add: issued_call_def)
    then have len': "length (accumulatedPrompts ?s') = min n (5 * (i + 1))"
      using len small by simp
    have calls': "length (calls ?s') = length (calls s) + 1" by simp
    have "i + 1 \<le> b" using True by simp
    from 1(1) [OF True body na len' this 1(5) 1(6)] calls' True show ?thesis
      by (simp only: for_loop_Next [OF True body]) simp
  qed
qed

text \<open>
  C1. When Cancel is never pressed and every call succeeds with exactly as many prompts as it
  was asked for, a run for the target count \<open>n\<close> (any \<open>n\<close>, in particular 5, 10, ..., 50)
  issues exactly \<open>ceil(n / 5)\<close> calls, each asking for \<open>min(5, n - accumulated.length)\<close>
  prompts, where the accumulated list is what the earlier calls returned, and ends with \<open>n\<close>
  prompts accumulated, all displayed, and no error message.
\<close>

theorem exact_run_batches:
  assumes "imageFile s = Some f" and "apiKey s \<noteq> []" and "promptCount s = n"
    and "\<forall>i c. \<not> cancelled_in_flight (g i c)
           \<and> (\<exists>r. settled (g i c) = Inr r \<and> length (newPrompts r) = nat (arg_count c))"
  shows "\<exists>cs. calls (handleGeneratePrompts g s) = calls s @ cs
           \<and> int (length cs) = \<lceil>real n / 5\<rceil>
           \<and> (\<forall>j<length cs.
                 arg_count (cs ! j) = min 5 (int n - int (length (accumulated_before g cs j))))
           \<and> length (accumulatedPrompts (handleGeneratePrompts g s)) = n
           \<and> prompts (handleGeneratePrompts g s) = accumulatedPrompts (handleGeneratePrompts g s)
           \<and> error (handleGeneratePrompts g s) = None"
proof -
  let ?loop = "for_loop g f (apiKey s) n (imageDescription s) (totalBatches n) 0 (start_run s)"
  have run: "handleGeneratePrompts g s = finish_run ?loop"
    using handleGeneratePrompts_run [OF assms(1,2), of g] assms(3) by simp
  have b: "5 * totalBatches n < n + 5" "min n (5 * totalBatches n) = n"
    by (simp_all add: totalBatches_div)
  have "fst ?loop = Completed
        \<and> length (accumulatedPrompts (snd ?loop)) = min n (5 * totalBatches n)
        \<and> length (calls (snd ?loop)) = length (calls (start_run s)) + (totalBatches n - 0)"
    by (rule for_loop_exact [OF assms(4)]) (simp_all add: b)
  then have left: "fst ?loop = Completed"
    and len: "length (accumulatedPrompts (snd ?loop)) = n"
    and ncalls: "length (calls (snd ?loop)) = length (calls s) + totalBatches n"
    using b(2) by simp_all
  have fin: "accumulatedPrompts (handleGeneratePrompts g s) = accumulatedPrompts (snd ?loop)"
            "calls (handleGeneratePrompts g s) = calls (snd ?loop)"
            "error (handleGeneratePrompts g s) = None"
    unfolding run using left for_loop_error [of g f "apiKey s" n "imageDescription s"
        "totalBatches n" 0 "start_run s"]
    by (cases ?loop; simp add: finish_run_error)+
  from run_batches [OF assms(1,2), of g] assms(3) obtain cs m where
    inv: "after_batches g f (apiKey s) n (imageDescription s) (calls s) cs m
            (handleGeneratePrompts g s)"
    by auto
  from inv have calls: "calls (handleGeneratePrompts g s) = calls s @ cs"
    and built: "\<And>j. j < length cs \<Longrightarrow>
                  cs ! j = issued_call f (apiKey s) n (imageDescription s) j
                             (accumulated_before g cs j)"
    and shown: "prompts (handleGeneratePrompts g s) = accumulatedPrompts (handleGeneratePrompts g s)"
    unfolding after_batches_def by blast+
  have "length cs = totalBatches n"
    using calls fin(2) ncalls by simp
  then have count: "int (length cs) = \<lceil>real n / 5\<rceil>"
    by (simp add: totalBatches_def)
  have sizes: "arg_count (cs ! j) = min 5 (int n - int (length (accumulated_before g cs j)))"
    if "j < length cs" for j
    by (subst built [OF that]) (simp add: issued_call_def)
  from calls count sizes fin(1,3) len shown show ?thesis by auto
qed

theorem exact_run_batches_witness:
  "\<exists>cs. calls (handleGeneratePrompts exact_client (example_state 10)) = cs
     \<and> int (length cs) = \<lceil>real (10::nat) / 5\<rceil>
     \<and> (\<forall>j<length cs.
           arg_count (cs ! j)
             = min 5 (int 10 - int (length (accumulated_before exact_client cs j))))
     \<and> length (accumulatedPrompts (handleGeneratePrompts exact_client (example_state 10))) = 10"
proof -
  have h: "\<forall>i c. \<not> cancelled_in_flight (exact_client i c)
             \<and> (\<exists>r. settled (exact_client i c) = Inr r
                    \<and> length (newPrompts r) = nat (arg_count c))"
    by (simp add: exact_client_def example_result_def)
  show ?thesis
    using exact_run_batches [of "example_state 10" "''cat.png''" 10 exact_client] h
    by simp
qed

lemma loop_body_exact_client:
  assumes "\<not> signal_aborted s" and "length (accumulatedPrompts s) < n"
  shows "\<exists>s'. loop_body exact_client f key n d i s = Next s'
           \<and> accumulatedPrompts s'
               = accumulatedPrompts s
                 @ replicate (min 5 (n - length (accumulatedPrompts s))) ''a castle, bold outlines''
           \<and> calls s' = calls s @ [issued_call f key n d i (accumulatedPrompts s)]
           \<and> \<not> signal_aborted s'"
proof -
  have nc: "\<not> cancelled_in_flight (exact_client i c)" for c
    by (simp add: exact_client_def)
  have ctl: "controller (in_flight exact_client f key n d i s) = controller s"
    by (simp add: in_flight_controller nc)
  show ?thesis
    using assms(1) ctl
    by (cases "i = 0")
       (simp_all add: loop_body_call [OF assms] exact_client_def example_result_def
          issued_call_def signal_aborted_def)
qed

text \<open>
  The scenario of the specification: for a target count of 12 the batch sizes are 5, 5 and 2,
  the first call has no exclusion list, the second one of 5 prompts and the third one of 10,
  and 12 prompts are accumulated.
\<close>

lemma example_twelve:
  "map arg_count (calls (handleGeneratePrompts exact_client (example_state 12))) = [5, 5, 2]
   \<and> map (map_option length \<circ> arg_existingPrompts)
         (calls (handleGeneratePrompts exact_client (example_state 12)))
       = [None, Some 5, Some 10]
   \<and> length (accumulatedPrompts (handleGeneratePrompts exact_client (example_state 12))) = 12"
proof -
  let ?s0 = "start_run (example_state 12)"
  from loop_body_exact_client [of ?s0 12 "''cat.png''" "''key''" "''a cat''" 0]
  obtain s1 where 1: "loop_body exact_client ''cat.png'' ''key'' 12 ''a cat'' 0 ?s0 = Next s1"
    and a1: "length (accumulatedPrompts s1) = 5"
    and c1: "calls s1 = [issued_call ''cat.png'' ''key'' 12 ''a cat'' 0 []]"
    and n1: "\<not> signal_aborted s1"
    by auto
  from loop_body_exact_client [OF n1, of 12 "''cat.png''" "''key''" "''a cat''" 1] a1
  obtain s2 where 2: "loop_body exact_client ''cat.png'' ''key'' 12 ''a cat'' 1 s1 = Next s2"
    and a2: "length (accumulatedPrompts s2) = 10"
    and c2: "calls s2 = calls s1 @ [issued_call ''cat.png'' ''key'' 12 ''a cat'' 1 (accumulatedPrompts s1)]"
    and n2: "\<not> signal_aborted s2"
    by auto
  from loop_body_exact_client [OF n2, of 12 "''cat.png''" "''key''" "''a cat''" 2] a2
  obtain s3 where 3: "loop_body exact_client ''cat.png'' ''key'' 12 ''a cat'' 2 s2 = Next s3"
    and a3: "length (accumulatedPrompts s3) = 12"
    and c3: "calls s3 = calls s2 @ [issued_call ''cat.png'' ''key'' 12 ''a cat'' 2 (accumulatedPrompts s2)]"
    by auto
  have e1: "for_loop exact_client ''cat.png'' ''key'' 12 ''a cat'' 3 0 ?s0
              = for_loop exact_client ''cat.png'' ''key'' 12 ''a cat'' 3 1 s1"
    using for_loop_Next [of 0 3, OF _ 1] by simp
  have e2: "for_loop exact_client ''cat.png'' ''key'' 12 ''a cat'' 3 1 s1
              = for_loop exact_client ''cat.png'' ''key'' 12 ''a cat'' 3 2 s2"
    using for_loop_Next [of 1 3, OF _ 2] by (simp add: numeral_2_eq_2)
  have e3: "for_loop exact_client ''cat.png'' ''key'' 12 ''a cat'' 3 2 s2
              = for_loop exact_client ''cat.png'' ''key'' 12 ''a cat'' 3 3 s3"
    using for_loop_Next [of 2 3, OF _ 3] by (simp add: numeral_3_eq_3 numeral_2_eq_2)
  have e4: "for_loop exact_client ''cat.png'' ''key'' 12 ''a cat'' 3 3 s3 = (Completed, s3)"
    by (rule for_loop_done) simp
  have "for_loop exact_client ''cat.png'' ''key'' 12 ''a cat'' 3 0 ?s0 = (Completed, s3)"
    by (simp only: e1 e2 e3 e4)
  then show ?thesis
    using a1 a2 a3 c1 c2 c3
    by (simp add: handleGeneratePrompts_run totalBatches_div issued_call_def)
qed

end
